theory Spec2Isabelle
  imports Complex_Main
begin

section \<open>JavaScript numbers\<close>

text \<open>
  The picker computes with JavaScript numbers.  A number is modelled as an exact real,
  or one of the three special values that the code can produce and test for:
  \<open>NaN\<close>, \<open>Infinity\<close> and \<open>-Infinity\<close>.  Arithmetic on finite values is exact
  (the rounding of IEEE doubles is not part of this type; it is treated separately in
  the section on binary64 arithmetic), and the special values follow the IEEE rules:
  \<open>0/0\<close> is \<open>NaN\<close>, \<open>x/0\<close> is infinite for \<open>x \<noteq> 0\<close>, \<open>NaN\<close> is absorbing,
  every comparison with \<open>NaN\<close> is false.  A zero denominator is taken to be \<open>+0\<close>,
  which is what the subtractions \<open>x - x\<close> of the converters produce.
\<close>

datatype jsnum = Fin real | NaN | PInf | NInf

instantiation jsnum :: "{plus, minus, uminus, times, inverse, abs, ord}"
begin

fun uminus_jsnum :: "jsnum \<Rightarrow> jsnum" where
  "uminus_jsnum (Fin a) = Fin (- a)"
| "uminus_jsnum NaN = NaN"
| "uminus_jsnum PInf = NInf"
| "uminus_jsnum NInf = PInf"

fun plus_jsnum :: "jsnum \<Rightarrow> jsnum \<Rightarrow> jsnum" where
  "plus_jsnum (Fin a) (Fin b) = Fin (a + b)"
| "plus_jsnum NaN y = NaN"
| "plus_jsnum x NaN = NaN"
| "plus_jsnum PInf NInf = NaN"
| "plus_jsnum NInf PInf = NaN"
| "plus_jsnum PInf y = PInf"
| "plus_jsnum x PInf = PInf"
| "plus_jsnum NInf y = NInf"
| "plus_jsnum x NInf = NInf"

definition minus_jsnum :: "jsnum \<Rightarrow> jsnum \<Rightarrow> jsnum" where
  "minus_jsnum x y = x + (- y)"

fun times_jsnum :: "jsnum \<Rightarrow> jsnum \<Rightarrow> jsnum" where
  "times_jsnum (Fin a) (Fin b) = Fin (a * b)"
| "times_jsnum NaN y = NaN"
| "times_jsnum x NaN = NaN"
| "times_jsnum (Fin a) PInf = (if a = 0 then NaN else if 0 < a then PInf else NInf)"
| "times_jsnum (Fin a) NInf = (if a = 0 then NaN else if 0 < a then NInf else PInf)"
| "times_jsnum PInf (Fin b) = (if b = 0 then NaN else if 0 < b then PInf else NInf)"
| "times_jsnum NInf (Fin b) = (if b = 0 then NaN else if 0 < b then NInf else PInf)"
| "times_jsnum PInf PInf = PInf"
| "times_jsnum PInf NInf = NInf"
| "times_jsnum NInf PInf = NInf"
| "times_jsnum NInf NInf = PInf"

fun divide_jsnum :: "jsnum \<Rightarrow> jsnum \<Rightarrow> jsnum" where
  "divide_jsnum (Fin a) (Fin b) =
     (if b = 0 then (if a = 0 then NaN else if 0 < a then PInf else NInf)
      else Fin (a / b))"
| "divide_jsnum NaN y = NaN"
| "divide_jsnum x NaN = NaN"
| "divide_jsnum (Fin a) PInf = Fin 0"
| "divide_jsnum (Fin a) NInf = Fin 0"
| "divide_jsnum PInf (Fin b) = (if 0 \<le> b then PInf else NInf)"
| "divide_jsnum NInf (Fin b) = (if 0 \<le> b then NInf else PInf)"
| "divide_jsnum PInf PInf = NaN"
| "divide_jsnum PInf NInf = NaN"
| "divide_jsnum NInf PInf = NaN"
| "divide_jsnum NInf NInf = NaN"

definition inverse_jsnum :: "jsnum \<Rightarrow> jsnum" where
  "inverse_jsnum x = divide (Fin 1) x"

fun abs_jsnum :: "jsnum \<Rightarrow> jsnum" where
  "abs_jsnum (Fin a) = Fin \<bar>a\<bar>"
| "abs_jsnum NaN = NaN"
| "abs_jsnum PInf = PInf"
| "abs_jsnum NInf = PInf"

fun less_jsnum :: "jsnum \<Rightarrow> jsnum \<Rightarrow> bool" where
  "less_jsnum (Fin a) (Fin b) = (a < b)"
| "less_jsnum NaN y = False"
| "less_jsnum x NaN = False"
| "less_jsnum x NInf = False"
| "less_jsnum PInf y = False"
| "less_jsnum NInf y = True"
| "less_jsnum x PInf = True"

fun less_eq_jsnum :: "jsnum \<Rightarrow> jsnum \<Rightarrow> bool" where
  "less_eq_jsnum (Fin a) (Fin b) = (a \<le> b)"
| "less_eq_jsnum NaN y = False"
| "less_eq_jsnum x NaN = False"
| "less_eq_jsnum NInf y = True"
| "less_eq_jsnum x PInf = True"
| "less_eq_jsnum x NInf = False"
| "less_eq_jsnum PInf y = False"

instance ..

end

text \<open>The operator \<open>==\<close> on numbers: \<open>NaN\<close> equals nothing, itself included.\<close>

definition js_eq :: "jsnum \<Rightarrow> jsnum \<Rightarrow> bool" where
  "js_eq x y = (x \<noteq> NaN \<and> x = y)"

definition isNaN :: "jsnum \<Rightarrow> bool" where
  "isNaN x = (x = NaN)"

text \<open>\<open>Math.max\<close> and \<open>Math.min\<close> return \<open>NaN\<close> as soon as an argument is \<open>NaN\<close>.\<close>

definition Math_max :: "jsnum \<Rightarrow> jsnum \<Rightarrow> jsnum" where
  "Math_max x y = (if x = NaN \<or> y = NaN then NaN else if x < y then y else x)"

definition Math_min :: "jsnum \<Rightarrow> jsnum \<Rightarrow> jsnum" where
  "Math_min x y = (if x = NaN \<or> y = NaN then NaN else if y < x then y else x)"

text \<open>\<open>Math.round\<close> rounds to the nearest integer, a tie going up: \<open>floor (x + 0.5)\<close>.\<close>

fun Math_round :: "jsnum \<Rightarrow> jsnum" where
  "Math_round (Fin a) = Fin (of_int \<lfloor>a + 1 / 2\<rfloor>)"
| "Math_round x = x"

section \<open>ColorConvert\<close>

record hsl =
  hsl_h :: jsnum
  hsl_s :: jsnum
  hsl_l :: jsnum

record hsb =
  hsb_h :: jsnum
  hsb_s :: jsnum
  hsb_b :: jsnum

record rgb =
  rgb_r :: jsnum
  rgb_g :: jsnum
  rgb_b :: jsnum

text \<open>
  \<open>ColorConvert.RGBtoHSL\<close>.  The \<open>switch (cMax)\<close> takes the first of the cases
  \<open>r\<close>, \<open>g\<close>, \<open>b\<close> that equals \<open>cMax\<close>; when none does (\<open>cMax\<close> is \<open>NaN\<close>),
  \<open>H\<close> stays undefined and \<open>H * 60\<close> is \<open>NaN\<close>.
\<close>

definition RGBtoHSL :: "jsnum \<Rightarrow> jsnum \<Rightarrow> jsnum \<Rightarrow> hsl" where
  "RGBtoHSL R G B =
    (let r = R / Fin 255;
         g = G / Fin 255;
         b = B / Fin 255;
         cMax = Math_max r (Math_max g b);
         cMin = Math_min r (Math_min g b);
         dC = cMax - cMin;
         L = (cMax + cMin) / Fin 2;
         S = (if js_eq cMax cMin then Fin 0
              else if L < Fin (1 / 2) then (cMax - cMin) / (cMax + cMin)
              else (cMax - cMin) / (Fin 2 - cMax - cMin));
         H = (if js_eq cMax cMin then Fin 0
              else if js_eq cMax r then (g - b) / dC
              else if js_eq cMax g then Fin 2 + (b - r) / dC
              else if js_eq cMax b then Fin 4 + (r - g) / dC
              else NaN)
     in \<lparr>hsl_h = Math_round (H * Fin 60),
         hsl_s = Math_round (S * Fin 100),
         hsl_l = Math_round (L * Fin 100)\<rparr>)"

text \<open>\<open>ColorConvert.HSLToHSB\<close>, with its early return for brightness zero.\<close>

definition HSLToHSB :: "jsnum \<Rightarrow> jsnum \<Rightarrow> jsnum \<Rightarrow> hsb" where
  "HSLToHSB H S L =
    (let h = H;
         b = (Fin 2 * L + S * (Fin 1 - \<bar>Fin 2 * L - Fin 1\<bar>)) / Fin 2
     in if js_eq b (Fin 0) then \<lparr>hsb_h = Fin 0, hsb_s = Fin 0, hsb_b = Fin 0\<rparr>
        else
          (let s = (Fin 2 * (b - L)) / b
           in \<lparr>hsb_h = Math_round (h * Fin 60),
               hsb_s = Math_round (s * Fin 100),
               hsb_b = Math_round (b * Fin 100)\<rparr>))"

text \<open>\<open>ColorConvert.HSBToHSL\<close>, with its two early returns for white and black.\<close>

definition HSBToHSL :: "jsnum \<Rightarrow> jsnum \<Rightarrow> jsnum \<Rightarrow> hsl" where
  "HSBToHSL H S B =
    (let h = H;
         l = Fin (1 / 2) * B * (Fin 2 - S);
         s = (B * S) / (Fin 1 - \<bar>Fin 2 * l - Fin 1\<bar>)
     in if (js_eq S (Fin 0) \<or> isNaN s) \<and> js_eq B (Fin 1)
        then \<lparr>hsl_h = H * Fin 60, hsl_s = Fin 0, hsl_l = Fin 100\<rparr>
        else if (js_eq S (Fin 0) \<or> isNaN s) \<and> js_eq B (Fin 0)
        then \<lparr>hsl_h = H * Fin 60, hsl_s = Fin 0, hsl_l = Fin 0\<rparr>
        else \<lparr>hsl_h = Math_round (h * Fin 60),
              hsl_s = Math_round (s * Fin 100),
              hsl_l = Math_round (l * Fin 100)\<rparr>)"

text \<open>
  \<open>parseInt(str, 16)\<close>: leading white space is skipped, then an optional sign and an
  optional \<open>0x\<close> or \<open>0X\<close>; the longest run of hexadecimal digits that follows is the
  value, and the result is \<open>NaN\<close> when that run is empty.  Strings are lists of
  characters; the white space recognised here is the ASCII part of the set of the language.
\<close>

definition isWhiteSpace :: "char \<Rightarrow> bool" where
  "isWhiteSpace c = (c \<in> set [CHR 0x09, CHR 0x0A, CHR 0x0B, CHR 0x0C, CHR 0x0D, CHR '' ''])"

definition hexDigit :: "char \<Rightarrow> nat option" where
  "hexDigit c =
    (let n = of_char c :: nat
     in if 48 \<le> n \<and> n \<le> 57 then Some (n - 48)
        else if 97 \<le> n \<and> n \<le> 102 then Some (n - 87)
        else if 65 \<le> n \<and> n \<le> 70 then Some (n - 55)
        else None)"

fun hexValue :: "nat \<Rightarrow> string \<Rightarrow> nat" where
  "hexValue acc [] = acc"
| "hexValue acc (c # cs) =
     (case hexDigit c of None \<Rightarrow> acc | Some d \<Rightarrow> hexValue (16 * acc + d) cs)"

definition parseInt16 :: "string \<Rightarrow> jsnum" where
  "parseInt16 str =
    (let t = dropWhile isWhiteSpace str;
         neg = (t \<noteq> [] \<and> hd t = CHR ''-'');
         u = (if t \<noteq> [] \<and> (hd t = CHR ''-'' \<or> hd t = CHR ''+'') then tl t else t);
         v = (if take 2 u = ''0x'' \<or> take 2 u = ''0X'' then drop 2 u else u)
     in if v = [] \<or> hexDigit (hd v) = None then NaN
        else if neg then Fin (- real (hexValue 0 v))
        else Fin (real (hexValue 0 v)))"

text \<open>\<open>str.substring(i, j)\<close> for \<open>i \<le> j\<close>, and \<open>str.replace('#', '')\<close>, which removes
  the first \<open>#\<close> only, wherever it stands.\<close>

definition substring :: "string \<Rightarrow> nat \<Rightarrow> nat \<Rightarrow> string" where
  "substring str i j = take (j - i) (drop i str)"

fun replace_hash :: "string \<Rightarrow> string" where
  "replace_hash [] = []"
| "replace_hash (c # cs) = (if c = CHR ''#'' then cs else c # replace_hash cs)"

text \<open>\<open>ColorConvert.HexToRGB\<close>.\<close>

definition HexToRGB :: "string \<Rightarrow> rgb" where
  "HexToRGB hex0 =
    (let hex = replace_hash hex0;
         R = parseInt16 (substring hex 0 2);
         G = parseInt16 (substring hex 2 4);
         B = parseInt16 (substring hex 4 6)
     in \<lparr>rgb_r = R, rgb_g = G, rgb_b = B\<rparr>)"

section \<open>The Math functions the picker uses\<close>

definition Math_PI :: jsnum where
  "Math_PI = Fin pi"

fun Math_sqrt :: "jsnum \<Rightarrow> jsnum" where
  "Math_sqrt (Fin a) = (if a < 0 then NaN else Fin (sqrt a))"
| "Math_sqrt PInf = PInf"
| "Math_sqrt NInf = NaN"
| "Math_sqrt NaN = NaN"

fun Math_cos :: "jsnum \<Rightarrow> jsnum" where
  "Math_cos (Fin a) = Fin (cos a)"
| "Math_cos x = NaN"

fun Math_sin :: "jsnum \<Rightarrow> jsnum" where
  "Math_sin (Fin a) = Fin (sin a)"
| "Math_sin x = NaN"

text \<open>\<open>Math.pow(x, 2)\<close>.\<close>

definition Math_pow2 :: "jsnum \<Rightarrow> jsnum" where
  "Math_pow2 x = x * x"

definition atan2 :: "real \<Rightarrow> real \<Rightarrow> real" where
  "atan2 y x =
    (if 0 < x then arctan (y / x)
     else if x < 0 then (if 0 \<le> y then arctan (y / x) + pi else arctan (y / x) - pi)
     else if 0 < y then pi / 2
     else if y < 0 then - (pi / 2)
     else 0)"

fun Math_atan2 :: "jsnum \<Rightarrow> jsnum \<Rightarrow> jsnum" where
  "Math_atan2 (Fin y) (Fin x) = Fin (atan2 y x)"
| "Math_atan2 NaN x = NaN"
| "Math_atan2 y NaN = NaN"
| "Math_atan2 (Fin y) PInf = Fin 0"
| "Math_atan2 (Fin y) NInf = (if 0 \<le> y then Fin pi else Fin (- pi))"
| "Math_atan2 PInf (Fin x) = Fin (pi / 2)"
| "Math_atan2 NInf (Fin x) = Fin (- (pi / 2))"
| "Math_atan2 PInf PInf = Fin (pi / 4)"
| "Math_atan2 PInf NInf = Fin (3 * pi / 4)"
| "Math_atan2 NInf PInf = Fin (- (pi / 4))"
| "Math_atan2 NInf NInf = Fin (- (3 * pi / 4))"

section \<open>HSLPicker\<close>

text \<open>
  The fields of a picker that its methods read and write.  The canvas is kept only as
  the offset of its box in the page, which \<open>normalizePos\<close> reads; drawing and the
  colour callback do not change any field and are left out, so \<open>redraw\<close> and
  \<open>onChange\<close> are the identity on this state.
\<close>

record picker =
  radius :: jsnum
  ringsize :: jsnum
  hue :: jsnum
  squareLength :: jsnum
  outerActive :: bool
  innerActive :: bool
  ox :: jsnum
  oy :: jsnum
  ix :: jsnum
  iy :: jsnum
  can_offsetLeft :: real
  can_offsetTop :: real

text \<open>
  An event, by its \<open>type\<close>, with the page coordinates that \<open>normalizePos\<close> reads from it:
  \<open>pageX\<close>, \<open>pageY\<close> of the event itself, of its first changed touch, or of its first
  touch.
\<close>

datatype evt = MouseEvt real real | TouchStartEvt real real | TouchMoveEvt real real

record pos =
  pos_x :: jsnum
  pos_y :: jsnum

definition normalizePos :: "picker \<Rightarrow> evt \<Rightarrow> pos" where
  "normalizePos p e =
    (let (x, y) = (case e of TouchStartEvt tx ty \<Rightarrow> (tx, ty)
                          | TouchMoveEvt tx ty \<Rightarrow> (tx, ty)
                          | MouseEvt mx my \<Rightarrow> (mx, my));
         eX = x - can_offsetLeft p;
         eY = y - can_offsetTop p
     in \<lparr>pos_x = Fin eX, pos_y = Fin eY\<rparr>)"

definition setHue :: "picker \<Rightarrow> jsnum \<Rightarrow> picker" where
  "setHue p a =
    (let h0 = a * (Fin 180 / Math_PI);
         h1 = (if h0 < Fin 0 then h0 + Fin 360 else h0);
         ringMiddle = radius p - (ringsize p / Fin 2)
     in p\<lparr>hue := h1,
          ox := Math_cos a * ringMiddle + radius p,
          oy := Math_sin a * ringMiddle + radius p\<rparr>)"

text \<open>\<open>_setIXY\<close>: the selection in the square, bounded and rounded.\<close>

definition setIXY :: "picker \<Rightarrow> jsnum \<Rightarrow> jsnum \<Rightarrow> picker" where
  "setIXY p x y =
    (let half = squareLength p / Fin 2;
         ix1 = (if Fin 0 < x - radius p then Math_min x (radius p + half) - Fin 1
                else Math_max x (radius p - half) + Fin 1);
         iy1 = (if Fin 0 < y - radius p then Math_min y (radius p + half) - Fin 1
                else Math_max y (radius p - half) + Fin 1)
     in p\<lparr>ix := Math_round ix1, iy := Math_round iy1\<rparr>)"

definition setColor :: "picker \<Rightarrow> jsnum \<Rightarrow> jsnum \<Rightarrow> jsnum \<Rightarrow> picker" where
  "setColor p r g b =
    (let c = RGBtoHSL r g b;
         hsv = HSLToHSB (hsl_h c / Fin 60) (hsl_s c / Fin 100) (hsl_l c / Fin 100);
         p1 = setHue p (hsb_h hsv * Math_PI / Fin 180);
         x = radius p1 - (squareLength p1 / Fin 2) + (squareLength p1 * (hsb_s hsv / Fin 100));
         y = radius p1 + (squareLength p1 / Fin 2) - (squareLength p1 * (hsb_b hsv / Fin 100))
     in setIXY p1 x y)"

definition setColorHex :: "picker \<Rightarrow> string \<Rightarrow> picker" where
  "setColorHex p hex = (let c = HexToRGB hex in setColor p (rgb_r c) (rgb_g c) (rgb_b c))"

definition updateOuter :: "picker \<Rightarrow> evt \<Rightarrow> picker" where
  "updateOuter p e =
    (let q = normalizePos p e;
         angle = Math_atan2 (pos_y q - radius p) (pos_x q - radius p)
     in setHue p angle)"

definition updateInner :: "picker \<Rightarrow> evt \<Rightarrow> picker" where
  "updateInner p e = (let q = normalizePos p e in setIXY p (pos_x q) (pos_y q))"

text \<open>
  The constructor: the fields it initialises, then \<open>setHue(hue * (Math.PI / 180))\<close>.
  Its arguments here are the offset of the canvas in the page, the radius and the hue.
\<close>

definition HSLPicker :: "real \<Rightarrow> real \<Rightarrow> jsnum \<Rightarrow> jsnum \<Rightarrow> picker" where
  "HSLPicker offL offT r hue0 =
    setHue
      \<lparr>radius = r,
       ringsize = r / Fin 5,
       hue = hue0,
       squareLength = Math_sqrt (Fin 2) * (r - r / Fin 5),
       outerActive = False,
       innerActive = False,
       ox = Fin 0,
       oy = Fin 0,
       ix = r,
       iy = r,
       can_offsetLeft = offL,
       can_offsetTop = offT\<rparr>
      (hue0 * (Math_PI / Fin 180))"

text \<open>The three listeners: press (\<open>mDown\<close>), move (\<open>mMove\<close>) and release (\<open>mUp\<close>).\<close>

definition mDown :: "picker \<Rightarrow> evt \<Rightarrow> picker" where
  "mDown p e =
    (let q = normalizePos p e;
         dist = Math_sqrt (Math_pow2 (radius p - pos_x q) + Math_pow2 (radius p - pos_y q));
         p1 = (if dist < radius p \<and> radius p - ringsize p < dist
               then updateOuter (p\<lparr>outerActive := True\<rparr>) e else p);
         p2 = (if dist < squareLength p1 / Fin 2
               then updateInner (p1\<lparr>innerActive := True\<rparr>) e else p1)
     in p2)"

definition mMove :: "picker \<Rightarrow> evt \<Rightarrow> picker" where
  "mMove p e =
    (if outerActive p then updateOuter p e
     else if innerActive p then updateInner p e
     else p)"

definition mUp :: "picker \<Rightarrow> picker" where
  "mUp p = p\<lparr>innerActive := False, outerActive := False\<rparr>"

text \<open>Sequences of input events, and sequences of calls that move the selection.\<close>

datatype input = Press evt | Move evt | Release

fun handle :: "picker \<Rightarrow> input \<Rightarrow> picker" where
  "handle p (Press e) = mDown p e"
| "handle p (Move e) = mMove p e"
| "handle p Release = mUp p"

definition run_inputs :: "picker \<Rightarrow> input list \<Rightarrow> picker" where
  "run_inputs p evs = foldl handle p evs"

datatype call = UpdateInner evt | SetColor real real real

fun do_call :: "picker \<Rightarrow> call \<Rightarrow> picker" where
  "do_call p (UpdateInner e) = updateInner p e"
| "do_call p (SetColor r g b) = setColor p (Fin r) (Fin g) (Fin b)"

definition run_calls :: "picker \<Rightarrow> call list \<Rightarrow> picker" where
  "run_calls p cs = foldl do_call p cs"

section \<open>Binary64 arithmetic\<close>

text \<open>
  A JavaScript number is an IEEE 754 binary64 value, and every arithmetic operation
  returns the exact result rounded to the nearest such value, a tie going to the even
  significand.  \<open>to_double\<close> is that rounding: the values between \<open>2 ^ e\<close> and
  \<open>2 ^ (e + 1)\<close> are the multiples of \<open>2 ^ (e - 52)\<close>, with \<open>e\<close> not below
  \<open>-1022\<close> (below that the spacing stays \<open>2 ^ -1074\<close>), and a result of magnitude
  \<open>2 ^ 1024\<close> is infinite.  The sign of zero is not kept.
\<close>

definition round_half_even :: "real \<Rightarrow> int" where
  "round_half_even x =
    (let n = \<lfloor>x\<rfloor>; d = x - of_int n
     in if d < 1 / 2 then n else if 1 / 2 < d then n + 1 else if even n then n else n + 1)"

definition binade :: "real \<Rightarrow> int" where
  "binade x = max \<lfloor>log 2 \<bar>x\<bar>\<rfloor> (- 1022)"

definition to_double :: "real \<Rightarrow> jsnum" where
  "to_double x =
    (if x = 0 then Fin 0
     else
       (let q = 2 powi (binade x - 52);
            y = of_int (round_half_even (x / q)) * q
        in if 2 powi 1024 \<le> \<bar>y\<bar> then (if 0 < y then PInf else NInf) else Fin y))"

fun rnd :: "jsnum \<Rightarrow> jsnum" where
  "rnd (Fin a) = to_double a"
| "rnd x = x"

text \<open>
  \<open>ColorConvert.HSBToHSL\<close> once more, on binary64 arguments, with the result of each
  of its multiplications, subtractions and divisions rounded.  \<open>Math.abs\<close> and
  \<open>Math.round\<close> are exact.
\<close>

definition HSBToHSL_binary64 :: "jsnum \<Rightarrow> jsnum \<Rightarrow> jsnum \<Rightarrow> hsl" where
  "HSBToHSL_binary64 H S B =
    (let h = H;
         l = rnd (rnd (Fin (1 / 2) * B) * rnd (Fin 2 - S));
         s = rnd (rnd (B * S) / rnd (Fin 1 - \<bar>rnd (rnd (Fin 2 * l) - Fin 1)\<bar>))
     in if (js_eq S (Fin 0) \<or> isNaN s) \<and> js_eq B (Fin 1)
        then \<lparr>hsl_h = rnd (H * Fin 60), hsl_s = Fin 0, hsl_l = Fin 100\<rparr>
        else if (js_eq S (Fin 0) \<or> isNaN s) \<and> js_eq B (Fin 0)
        then \<lparr>hsl_h = rnd (H * Fin 60), hsl_s = Fin 0, hsl_l = Fin 0\<rparr>
        else \<lparr>hsl_h = Math_round (rnd (h * Fin 60)),
              hsl_s = Math_round (rnd (s * Fin 100)),
              hsl_l = Math_round (rnd (l * Fin 100))\<rparr>)"

text \<open>
  \<open>ColorConvert.RGBtoHSL\<close> and \<open>ColorConvert.HSLToHSB\<close> likewise, in the order the
  source evaluates them: \<open>2 - cMax - cMin\<close> is \<open>(2 - cMax) - cMin\<close>, and
  \<open>2 * L\<close> is computed twice.
\<close>

definition RGBtoHSL_binary64 :: "jsnum \<Rightarrow> jsnum \<Rightarrow> jsnum \<Rightarrow> hsl" where
  "RGBtoHSL_binary64 R G B =
    (let r = rnd (R / Fin 255);
         g = rnd (G / Fin 255);
         b = rnd (B / Fin 255);
         cMax = Math_max r (Math_max g b);
         cMin = Math_min r (Math_min g b);
         dC = rnd (cMax - cMin);
         L = rnd (rnd (cMax + cMin) / Fin 2);
         S = (if js_eq cMax cMin then Fin 0
              else if L < Fin (1 / 2) then rnd (rnd (cMax - cMin) / rnd (cMax + cMin))
              else rnd (rnd (cMax - cMin) / rnd (rnd (Fin 2 - cMax) - cMin)));
         H = (if js_eq cMax cMin then Fin 0
              else if js_eq cMax r then rnd (rnd (g - b) / dC)
              else if js_eq cMax g then rnd (Fin 2 + rnd (rnd (b - r) / dC))
              else if js_eq cMax b then rnd (Fin 4 + rnd (rnd (r - g) / dC))
              else NaN)
     in \<lparr>hsl_h = Math_round (rnd (H * Fin 60)),
         hsl_s = Math_round (rnd (S * Fin 100)),
         hsl_l = Math_round (rnd (L * Fin 100))\<rparr>)"

definition HSLToHSB_binary64 :: "jsnum \<Rightarrow> jsnum \<Rightarrow> jsnum \<Rightarrow> hsb" where
  "HSLToHSB_binary64 H S L =
    (let h = H;
         b = rnd (rnd (rnd (Fin 2 * L)
               + rnd (S * rnd (Fin 1 - \<bar>rnd (rnd (Fin 2 * L) - Fin 1)\<bar>))) / Fin 2)
     in if js_eq b (Fin 0) then \<lparr>hsb_h = Fin 0, hsb_s = Fin 0, hsb_b = Fin 0\<rparr>
        else
          (let s = rnd (rnd (Fin 2 * rnd (b - L)) / b)
           in \<lparr>hsb_h = Math_round (rnd (h * Fin 60)),
               hsb_s = Math_round (rnd (s * Fin 100)),
               hsb_b = Math_round (rnd (b * Fin 100))\<rparr>))"

section \<open>The round trip\<close>

text \<open>
  Modelled from the spec: the reverse RGB composition, from HSL back to RGB, is not in
  the repository (the picker reads its colours back from the canvas).  This is the
  standard conversion, on a hue in degrees and a saturation and a lightness in percent:
  the hue is reduced modulo 360, the chroma is \<open>(1 - |2L - 1|) * S\<close>, the channels
  of the sector of the hue are shifted by \<open>L - C / 2\<close>, scaled to 255 and rounded.
  It is the mathematical conversion, on exact reals.
\<close>

definition HSLtoRGB :: "hsl \<Rightarrow> rgb" where
  "HSLtoRGB c =
    (case (hsl_h c, hsl_s c, hsl_l c) of
       (Fin h, Fin s, Fin l) \<Rightarrow>
         (let h' = (h - 360 * of_int \<lfloor>h / 360\<rfloor>) / 60;
              S = s / 100;
              L = l / 100;
              C = (1 - \<bar>2 * L - 1\<bar>) * S;
              X = C * (1 - \<bar>h' - 2 * of_int \<lfloor>h' / 2\<rfloor> - 1\<bar>);
              m = L - C / 2;
              (r1, g1, b1) =
                (if h' < 1 then (C, X, 0)
                 else if h' < 2 then (X, C, 0)
                 else if h' < 3 then (0, C, X)
                 else if h' < 4 then (0, X, C)
                 else if h' < 5 then (X, 0, C)
                 else (C, 0, X))
          in \<lparr>rgb_r = Math_round (Fin ((r1 + m) * 255)),
              rgb_g = Math_round (Fin ((g1 + m) * 255)),
              rgb_b = Math_round (Fin ((b1 + m) * 255))\<rparr>)
     | _ \<Rightarrow> \<lparr>rgb_r = NaN, rgb_g = NaN, rgb_b = NaN\<rparr>)"

text \<open>
  The composition of the claim, as the program computes it: \<open>RGBtoHSL\<close>, then
  \<open>HSLToHSB\<close> on the result rescaled as \<open>setColor\<close> does, then \<open>HSBToHSL\<close>
  rescaled likewise, every operation a binary64 operation, and back to RGB by the
  reference conversion.
\<close>

definition via_HSB_binary64 :: "jsnum \<Rightarrow> jsnum \<Rightarrow> jsnum \<Rightarrow> hsl" where
  "via_HSB_binary64 R G B =
    (let c = RGBtoHSL_binary64 R G B;
         v = HSLToHSB_binary64 (rnd (hsl_h c / Fin 60)) (rnd (hsl_s c / Fin 100))
               (rnd (hsl_l c / Fin 100))
     in HSBToHSL_binary64 (rnd (hsb_h v / Fin 60)) (rnd (hsb_s v / Fin 100))
          (rnd (hsb_b v / Fin 100)))"

definition round_trip_binary64 :: "jsnum \<Rightarrow> jsnum \<Rightarrow> jsnum \<Rightarrow> rgb" where
  "round_trip_binary64 R G B = HSLtoRGB (via_HSB_binary64 R G B)"

text \<open>Two numbers that differ by at most \<open>t\<close>.\<close>

definition close_to :: "real \<Rightarrow> jsnum \<Rightarrow> jsnum \<Rightarrow> bool" where
  "close_to t x y = (y - Fin t \<le> x \<and> x \<le> y + Fin t)"

section \<open>Notions used to state the properties\<close>

text \<open>A number that is an integer (\<open>Number.isInteger\<close>) and lies between two bounds.\<close>

fun isInteger :: "jsnum \<Rightarrow> bool" where
  "isInteger (Fin a) = (of_int \<lfloor>a\<rfloor> = a)"
| "isInteger x = False"

definition int_between :: "int \<Rightarrow> int \<Rightarrow> jsnum \<Rightarrow> bool" where
  "int_between lo hi x = (isInteger x \<and> Fin (of_int lo) \<le> x \<and> x \<le> Fin (of_int hi))"

text \<open>A sequence of calls of \<open>setHue\<close>.\<close>

definition run_setHue :: "picker \<Rightarrow> jsnum list \<Rightarrow> picker" where
  "run_setHue p as = foldl setHue p as"

text \<open>
  The two tests of \<open>mDown\<close> on the distance of the pointer from the centre: inside the
  ring, and inside the circle inscribed in the square.
\<close>

definition in_ring :: "picker \<Rightarrow> evt \<Rightarrow> bool" where
  "in_ring p e =
    (let q = normalizePos p e;
         dist = Math_sqrt (Math_pow2 (radius p - pos_x q) + Math_pow2 (radius p - pos_y q))
     in dist < radius p \<and> radius p - ringsize p < dist)"

definition in_square :: "picker \<Rightarrow> evt \<Rightarrow> bool" where
  "in_square p e =
    (let q = normalizePos p e;
         dist = Math_sqrt (Math_pow2 (radius p - pos_x q) + Math_pow2 (radius p - pos_y q))
     in dist < squareLength p / Fin 2)"

text \<open>The derived lengths are the ones the constructor computes from the radius.\<close>

definition geometry :: "picker \<Rightarrow> bool" where
  "geometry p =
    (ringsize p = radius p / Fin 5
     \<and> squareLength p = Math_sqrt (Fin 2) * (radius p - ringsize p))"

text \<open>
  An input sequence in which a press only comes when no button is held: after a press
  (\<open>down\<close>), a release comes before the next press.
\<close>

fun press_after_release :: "bool \<Rightarrow> input list \<Rightarrow> bool" where
  "press_after_release down [] = True"
| "press_after_release down (Press e # evs) = (\<not> down \<and> press_after_release True evs)"
| "press_after_release down (Move e # evs) = press_after_release down evs"
| "press_after_release down (Release # evs) = press_after_release False evs"

definition flags_ok :: "bool \<Rightarrow> picker \<Rightarrow> bool" where
  "flags_ok down p =
    (geometry p \<and> \<not> (outerActive p \<and> innerActive p)
     \<and> (down \<or> (\<not> outerActive p \<and> \<not> innerActive p)))"

text \<open>The selection lies in the square, on both axes.\<close>

definition inner_in_square :: "picker \<Rightarrow> bool" where
  "inner_in_square p =
    (radius p - squareLength p / Fin 2 \<le> ix p \<and> ix p \<le> radius p + squareLength p / Fin 2
     \<and> radius p - squareLength p / Fin 2 \<le> iy p \<and> iy p \<le> radius p + squareLength p / Fin 2)"

text \<open>A call of \<open>setColor\<close> with its three channels in the documented range 0 - 255.\<close>

fun channels_ok :: "call \<Rightarrow> bool" where
  "channels_ok (UpdateInner e) = True"
| "channels_ok (SetColor r g b) =
     (0 \<le> r \<and> r \<le> 255 \<and> 0 \<le> g \<and> g \<le> 255 \<and> 0 \<le> b \<and> b \<le> 255)"

text \<open>One coordinate of \<open>_setIXY\<close>: bounded on the side of the centre it is on, then rounded.\<close>

definition bound1 :: "jsnum \<Rightarrow> jsnum \<Rightarrow> jsnum \<Rightarrow> jsnum" where
  "bound1 x r half =
     Math_round (if Fin 0 < x - r then Math_min x (r + half) - Fin 1
                 else Math_max x (r - half) + Fin 1)"

section \<open>Nearest integers and the test of a pair of channels\<close>

text \<open>
  The relative error of one binary64 operation, and a binary64 value that is a finite
  number within a given distance of an exact value.
\<close>

definition eps :: real where
  "eps = 1 / 2 ^ 53"

definition approx :: "real \<Rightarrow> jsnum \<Rightarrow> real \<Rightarrow> bool" where
  "approx e v x = (\<exists>y. v = Fin y \<and> \<bar>y - x\<bar> \<le> e)"

text \<open>
  On integer channels every value that the composition rounds with \<open>Math.round\<close> is
  the binary64 approximation of a ratio \<open>p / q\<close> of integers.  \<open>cand p q\<close> lists
  the integers nearest to \<open>p / q\<close>: one, or two when \<open>p / q\<close> is half an odd
  integer, where the direction of the rounding depends on the errors of the binary64
  operations.
\<close>

definition cand :: "int \<Rightarrow> int \<Rightarrow> int list" where
  "cand p q = (let d = (2 * p + q) div (2 * q) in if 2 * q * d = 2 * p + q then [d - 1, d] else [d])"

text \<open>
  The candidates for the saturation of \<open>RGBtoHSL\<close>, from the sum and the difference
  of the largest and the smallest channel (its lightness has the candidates
  \<open>cand (100 * sg) 510\<close>); for the saturation and the brightness of \<open>HSLToHSB\<close>
  on a saturation and a lightness in percent; and for the saturation and the lightness
  of \<open>HSBToHSL\<close> on a saturation and a brightness in percent.
\<close>

definition s1_cand :: "int \<Rightarrow> int \<Rightarrow> int list" where
  "s1_cand sg dl =
    (if dl = 0 then [0]
     else if sg < 255 then cand (100 * dl) sg
     else cand (100 * dl) (510 - sg))"

definition hop1_cand :: "int \<Rightarrow> int \<Rightarrow> (int \<times> int) list" where
  "hop1_cand s1 l1 =
    (let w1 = 100 - \<bar>2 * l1 - 100\<bar>;
         D = 200 * l1 + s1 * w1
     in if l1 = 0 then [(0, 0)] else List.product (cand (200 * s1 * w1) D) (cand D 200))"

definition hop2_cand :: "int \<Rightarrow> int \<Rightarrow> (int \<times> int) list" where
  "hop2_cand s2 b2 =
    (let T = b2 * (200 - s2);
         E = 10000 - \<bar>T - 10000\<bar>
     in if s2 = 0 \<and> b2 = 100 then [(0, 100)]
        else if b2 = 0 then [(0, 0)]
        else List.product (cand (100 * b2 * s2) E) (cand T 200))"

text \<open>
  The test on one pair of a largest and a smallest channel.  With \<open>m\<close> the
  smallest and \<open>m + C\<close> the largest channel that the reverse conversion returns,
  scaled by 240000, \<open>a\<close> is the error of the smallest channel, \<open>b\<close> the error of
  the chroma and \<open>c\<close> the effect of half a degree of hue on a channel: the test
  bounds the error of every channel between \<open>-8.5\<close> and \<open>8.5\<close>, for every
  candidate of every rounding.
\<close>

definition in_percent :: "int \<Rightarrow> bool" where
  "in_percent k = (0 \<le> k \<and> k \<le> 100)"

definition channel_check :: "int \<Rightarrow> int \<Rightarrow> int \<Rightarrow> int \<Rightarrow> bool" where
  "channel_check cMin dl s3 l3 =
    (let w3 = 100 - \<bar>2 * l3 - 100\<bar>;
         a = 612000 * l3 - 3060 * w3 * s3 - 240000 * cMin;
         b = 6120 * w3 * s3 - 240000 * dl;
         c = 51 * w3 * s3
     in - 2040000 \<le> a + min 0 b - c \<and> a + max 0 b + c < 2040000)"

definition pair_check :: "int \<Rightarrow> int \<Rightarrow> bool" where
  "pair_check cMax cMin =
    list_all (\<lambda>l1. in_percent l1 \<and>
      list_all (\<lambda>s1. in_percent s1 \<and>
        list_all (\<lambda>(s2, b2). in_percent s2 \<and> in_percent b2 \<and>
          list_all (\<lambda>(s3, l3). 0 \<le> s3 \<and> in_percent l3 \<and> channel_check cMin (cMax - cMin) s3 l3)
            (hop2_cand s2 b2))
          (hop1_cand s1 l1))
        (s1_cand (cMax + cMin) (cMax - cMin)))
      (cand (100 * (cMax + cMin)) 510)"

text \<open>The test on a range of integers, and on every smallest channel of a row.\<close>

fun all_from :: "(int \<Rightarrow> bool) \<Rightarrow> nat \<Rightarrow> int \<Rightarrow> bool" where
  "all_from P 0 i = True"
| "all_from P (Suc n) i = (P i \<and> all_from P n (i + 1))"

definition row_ok :: "int \<Rightarrow> bool" where
  "row_ok cMax = all_from (pair_check cMax) (nat (cMax + 1)) 0"

section \<open>Arithmetic on finite numbers\<close>

lemma minus_Fin [simp]: "Fin a - Fin b = Fin (a - b)"
  by (simp add: minus_jsnum_def)

lemma Math_max_Fin [simp]: "Math_max (Fin a) (Fin b) = Fin (max a b)"
  by (simp add: Math_max_def max_def)

lemma Math_min_Fin [simp]: "Math_min (Fin a) (Fin b) = Fin (min a b)"
  by (simp add: Math_min_def min_def)

lemma js_eq_Fin [simp]: "js_eq (Fin a) (Fin b) = (a = b)"
  by (simp add: js_eq_def)

lemma isNaN_simps [simp]: "isNaN NaN" "\<not> isNaN (Fin a)" "\<not> isNaN PInf" "\<not> isNaN NInf"
  by (simp_all add: isNaN_def)

lemma NaN_compare [simp]:
  "\<not> x < NaN" "\<not> NaN < x" "\<not> x \<le> NaN" "\<not> NaN \<le> x"
  by (cases x; simp)+

lemma floor_half_bounds:
  fixes v :: real
  shows "v - 1 / 2 < of_int \<lfloor>v + 1 / 2\<rfloor>" "of_int \<lfloor>v + 1 / 2\<rfloor> \<le> v + 1 / 2"
  by linarith+

lemma round_between:
  assumes "of_int lo \<le> v" "v \<le> of_int hi"
  shows "int_between lo hi (Math_round (Fin v))"
proof -
  have "lo \<le> \<lfloor>v + 1 / 2\<rfloor>" using assms(1) by (simp add: le_floor_iff)
  moreover have "\<lfloor>v + 1 / 2\<rfloor> \<le> hi" using assms(2) by (simp add: floor_le_iff)
  ultimately show ?thesis by (simp add: int_between_def)
qed

lemma int_between_Fin: "int_between lo hi x \<Longrightarrow> \<exists>v. x = Fin v"
  by (cases x) (simp_all add: int_between_def)

lemma ratio_bounds:
  fixes n d :: real
  assumes "0 < d" "\<bar>n\<bar> \<le> d"
  shows "- 1 \<le> n / d" "n / d \<le> 1"
  using assms by (simp_all add: field_simps abs_le_iff)

section \<open>Properties of ColorConvert\<close>

text \<open>
  The ranges of \<open>RGBtoHSL\<close> on channels between 0 and 255, written as fractions of 255.
  The lightness and the saturation are percentages.  The hue of a colour whose largest
  channel is red is \<open>(g - b) / dC\<close> sixths of a turn, between \<open>-1\<close> and \<open>1\<close>: nothing
  is added when it is negative, so the degrees run from \<open>-60\<close> to \<open>300\<close>.
\<close>

lemma RGBtoHSL_unit:
  fixes r g b :: real
  assumes r: "0 \<le> r" "r \<le> 1" and g: "0 \<le> g" "g \<le> 1" and b: "0 \<le> b" "b \<le> 1"
  shows "int_between (- 60) 300 (hsl_h (RGBtoHSL (Fin (r * 255)) (Fin (g * 255)) (Fin (b * 255))))"
    and "int_between 0 100 (hsl_s (RGBtoHSL (Fin (r * 255)) (Fin (g * 255)) (Fin (b * 255))))"
    and "int_between 0 100 (hsl_l (RGBtoHSL (Fin (r * 255)) (Fin (g * 255)) (Fin (b * 255))))"
proof -
  define cMax where "cMax = max r (max g b)"
  define cMin where "cMin = min r (min g b)"
  have mx: "cMax \<le> 1" "r \<le> cMax" "g \<le> cMax" "b \<le> cMax" "cMax = r \<or> cMax = g \<or> cMax = b"
    using r g b by (auto simp add: cMax_def max_def)
  have mn: "0 \<le> cMin" "cMin \<le> r" "cMin \<le> g" "cMin \<le> b"
    using r g b by (auto simp add: cMin_def min_def)
  have le: "cMin \<le> cMax" using mx mn by linarith
  let ?c = "RGBtoHSL (Fin (r * 255)) (Fin (g * 255)) (Fin (b * 255))"
  define L where "L = (cMax + cMin) / 2"
  have L: "hsl_l ?c = Math_round (Fin (L * 100))"
    by (simp add: RGBtoHSL_def Let_def cMax_def cMin_def L_def)
  have "0 \<le> L" "L \<le> 1" using mx mn le by (simp_all add: L_def)
  then show "int_between 0 100 (hsl_l ?c)"
    unfolding L by (intro round_between) simp_all
  show "int_between 0 100 (hsl_s ?c)"
  proof (cases "cMax = cMin")
    case True
    then have "hsl_s ?c = Math_round (Fin 0)"
      by (simp add: RGBtoHSL_def Let_def cMax_def cMin_def)
    then show ?thesis using round_between [of 0 0 100] by simp
  next
    case False
    then have lt: "cMin < cMax" using le by simp
    show ?thesis
    proof (cases "L < 1 / 2")
      case True
      have pos: "0 < cMax + cMin" using lt mn by linarith
      define q where "q = (cMax - cMin) / (cMax + cMin)"
      have S: "hsl_s ?c = Math_round (Fin (q * 100))"
        using False True pos
        by (simp add: RGBtoHSL_def Let_def cMax_def [symmetric] cMin_def [symmetric] L_def q_def)
      have "\<bar>cMax - cMin\<bar> \<le> cMax + cMin" using lt mn by simp
      from ratio_bounds [OF pos this] have "q \<le> 1" by (simp add: q_def)
      moreover have "0 \<le> q" using lt pos by (simp add: q_def)
      ultimately show ?thesis unfolding S by (intro round_between) simp_all
    next
      case nt: False
      have pos: "0 < 2 - cMax - cMin" using lt mx by linarith
      define q where "q = (cMax - cMin) / (2 - cMax - cMin)"
      have S: "hsl_s ?c = Math_round (Fin (q * 100))"
        using False nt pos
        by (simp add: RGBtoHSL_def Let_def cMax_def [symmetric] cMin_def [symmetric] L_def q_def)
      have "\<bar>cMax - cMin\<bar> \<le> 2 - cMax - cMin" using lt mx by simp
      from ratio_bounds [OF pos this] have "q \<le> 1" by (simp add: q_def)
      moreover have "0 \<le> q" using lt pos by (simp add: q_def)
      ultimately show ?thesis unfolding S by (intro round_between) simp_all
    qed
  qed
  show "int_between (- 60) 300 (hsl_h ?c)"
  proof (cases "cMax = cMin")
    case True
    then have "hsl_h ?c = Math_round (Fin 0)"
      by (simp add: RGBtoHSL_def Let_def cMax_def cMin_def)
    then show ?thesis using round_between [of "- 60" 0 300] by simp
  next
    case False
    then have pos: "0 < cMax - cMin" using le by simp
    have nz: "cMax - cMin \<noteq> 0" using pos by simp
    consider (R) "cMax = r" | (G) "cMax \<noteq> r" "cMax = g" | (B) "cMax \<noteq> r" "cMax \<noteq> g" "cMax = b"
      using mx(5) by blast
    then show ?thesis
    proof cases
      case R
      define q where "q = (g - b) / (cMax - cMin)"
      have H: "hsl_h ?c = Math_round (Fin (q * 60))"
        using False R nz
        by (simp add: RGBtoHSL_def Let_def cMax_def [symmetric] cMin_def [symmetric] q_def)
      have "\<bar>g - b\<bar> \<le> cMax - cMin" using mx mn by (simp add: abs_le_iff)
      from ratio_bounds [OF pos this] have "- 1 \<le> q" "q \<le> 1" by (simp_all add: q_def)
      then show ?thesis unfolding H by (intro round_between) simp_all
    next
      case G
      define q where "q = (b - r) / (cMax - cMin)"
      have H: "hsl_h ?c = Math_round (Fin ((2 + q) * 60))"
        using False G nz
        by (simp add: RGBtoHSL_def Let_def cMax_def [symmetric] cMin_def [symmetric] q_def)
      have "\<bar>b - r\<bar> \<le> cMax - cMin" using mx mn by (simp add: abs_le_iff)
      from ratio_bounds [OF pos this] have "- 1 \<le> q" "q \<le> 1" by (simp_all add: q_def)
      then show ?thesis unfolding H by (intro round_between) simp_all
    next
      case B
      define q where "q = (r - g) / (cMax - cMin)"
      have H: "hsl_h ?c = Math_round (Fin ((4 + q) * 60))"
        using False B nz
        by (simp add: RGBtoHSL_def Let_def cMax_def [symmetric] cMin_def [symmetric] q_def)
      have "\<bar>r - g\<bar> \<le> cMax - cMin" using mx mn by (simp add: abs_le_iff)
      from ratio_bounds [OF pos this] have "- 1 \<le> q" "q \<le> 1" by (simp_all add: q_def)
      then show ?thesis unfolding H by (intro round_between) simp_all
    qed
  qed
qed

lemma RGBtoHSL_channels:
  fixes R G B :: real
  assumes "0 \<le> R" "R \<le> 255" "0 \<le> G" "G \<le> 255" "0 \<le> B" "B \<le> 255"
  shows "int_between (- 60) 300 (hsl_h (RGBtoHSL (Fin R) (Fin G) (Fin B)))"
    and "int_between 0 100 (hsl_s (RGBtoHSL (Fin R) (Fin G) (Fin B)))"
    and "int_between 0 100 (hsl_l (RGBtoHSL (Fin R) (Fin G) (Fin B)))"
  using RGBtoHSL_unit [of "R / 255" "G / 255" "B / 255"] assms by simp_all




lemma int_between_zero: "lo \<le> 0 \<Longrightarrow> 0 \<le> hi \<Longrightarrow> int_between lo hi (Fin 0)"
  by (simp add: int_between_def)

lemma int_between_hundred: "int_between 0 100 (Fin 100)"
  by (simp add: int_between_def)

text \<open>
  In exact arithmetic both converters between HSL and HSB keep a saturation and a
  lightness or brightness between 0 and 1 within the percentages: the denominator of
  \<open>HSBToHSL\<close> is zero only for a brightness of 0, or a brightness of 1 with a
  saturation of 0, and these are the cases its guards return early for.
\<close>

lemma HSLToHSB_exact_range:
  assumes "0 \<le> S" "S \<le> 1" "0 \<le> L" "L \<le> 1"
  shows "int_between 0 100 (hsb_s (HSLToHSB H (Fin S) (Fin L)))"
    and "int_between 0 100 (hsb_b (HSLToHSB H (Fin S) (Fin L)))"
proof -
  define w where "w = 1 - \<bar>2 * L - 1\<bar>"
  define b where "b = (2 * L + S * w) / 2"
  have w: "0 \<le> w" "w \<le> 2 * L" "w \<le> 2 - 2 * L" using assms by (simp_all add: w_def abs_if)
  have sw: "0 \<le> S * w" "S * w \<le> w"
    using assms w(1) by (simp_all add: mult_left_le_one_le)
  have b: "L \<le> b" "b \<le> 1" "S * w \<le> b" using sw w assms by (simp_all add: b_def)
  show "int_between 0 100 (hsb_s (HSLToHSB H (Fin S) (Fin L)))"
  proof (cases "b = 0")
    case True
    then show ?thesis by (simp add: HSLToHSB_def Let_def b_def w_def int_between_zero)
  next
    case False
    then have pos: "0 < b" using b(1) assms(3) by linarith
    define q where "q = 2 * (b - L) / b"
    have e: "hsb_s (HSLToHSB H (Fin S) (Fin L)) = Math_round (Fin (q * 100))"
      using False by (simp add: HSLToHSB_def Let_def b_def w_def q_def)
    have "2 * (b - L) = S * w" by (simp add: b_def field_simps)
    then have "0 \<le> 2 * (b - L)" "2 * (b - L) \<le> b" using sw b by simp_all
    then have "0 \<le> q" "q \<le> 1" using pos by (simp_all add: q_def)
    then show ?thesis unfolding e by (intro round_between) simp_all
  qed
  show "int_between 0 100 (hsb_b (HSLToHSB H (Fin S) (Fin L)))"
  proof (cases "b = 0")
    case True
    then show ?thesis by (simp add: HSLToHSB_def Let_def b_def w_def int_between_zero)
  next
    case False
    have e: "hsb_b (HSLToHSB H (Fin S) (Fin L)) = Math_round (Fin (b * 100))"
      using False by (simp add: HSLToHSB_def Let_def b_def w_def)
    have "0 \<le> b" using b(1) assms(3) by linarith
    then show ?thesis unfolding e using b(2) by (intro round_between) simp_all
  qed
qed

lemma HSBToHSL_exact_range:
  assumes "0 \<le> S" "S \<le> 1" "0 \<le> B" "B \<le> 1"
  shows "int_between 0 100 (hsl_s (HSBToHSL H (Fin S) (Fin B)))"
    and "int_between 0 100 (hsl_l (HSBToHSL H (Fin S) (Fin B)))"
proof -
  define l where "l = 1 / 2 * B * (2 - S)"
  define d where "d = 1 - \<bar>2 * l - 1\<bar>"
  have bs: "0 \<le> B * S" "B * S \<le> B" using assms by (simp_all add: mult_left_le)
  have l3: "2 * l = 2 * B - B * S" by (simp add: l_def field_simps)
  have l: "0 \<le> l" "l \<le> 1" "2 * l = 2 * B - B * S"
    using assms bs l3 by linarith+
  have "d = 2 * l \<or> d = 2 - 2 * l" by (auto simp add: d_def abs_if)
  then have d: "0 \<le> d" "B * S \<le> d" using l bs assms by linarith+
  have d0: "B = 0 \<or> (B = 1 \<and> S = 0)" if "d = 0"
  proof -
    have "B * S = 0" using that d(2) bs(1) by linarith
    moreover have "l = 0 \<or> l = 1" using that by (auto simp add: d_def abs_if split: if_splits)
    ultimately show ?thesis using l(3) by auto
  qed
  show "int_between 0 100 (hsl_s (HSBToHSL H (Fin S) (Fin B)))"
  proof (cases "d = 0")
    case True
    with d0 show ?thesis
      by (auto simp add: HSBToHSL_def Let_def int_between_zero)
  next
    case False
    then have pos: "0 < d" using d(1) by simp
    define q where "q = B * S / d"
    have q: "0 \<le> q" "q \<le> 1" using pos bs d by (simp_all add: q_def)
    have "hsl_s (HSBToHSL H (Fin S) (Fin B)) = Fin 0
        \<or> hsl_s (HSBToHSL H (Fin S) (Fin B)) = Math_round (Fin (q * 100))"
      using False by (simp add: HSBToHSL_def Let_def d_def l_def q_def)
    then show ?thesis using round_between [of 0 "q * 100" 100] q
      by (auto simp add: int_between_zero)
  qed
  show "int_between 0 100 (hsl_l (HSBToHSL H (Fin S) (Fin B)))"
  proof -
    have "hsl_l (HSBToHSL H (Fin S) (Fin B)) = Fin 0
        \<or> hsl_l (HSBToHSL H (Fin S) (Fin B)) = Fin 100
        \<or> hsl_l (HSBToHSL H (Fin S) (Fin B)) = Math_round (Fin (l * 100))"
      by (simp add: HSBToHSL_def Let_def l_def)
    then show ?thesis using round_between [of 0 "l * 100" 100] l
      by (auto simp add: int_between_zero int_between_hundred)
  qed
qed

text \<open>
  Claim C6.  The degenerate cases hold as equations, for every hue \<open>H\<close> (any number)
  and every finite \<open>x\<close>: \<open>HSBToHSL(H, 0, 1)\<close> is \<open>{H * 60, 0, 100}\<close>,
  \<open>HSBToHSL(H, 0, 0)\<close> is \<open>{H * 60, 0, 0}\<close>, and \<open>HSLToHSB(H, x, 0)\<close> is \<open>{0, 0, 0}\<close>.
\<close>

theorem degenerate_cases:
  "HSBToHSL H (Fin 0) (Fin 1) = \<lparr>hsl_h = H * Fin 60, hsl_s = Fin 0, hsl_l = Fin 100\<rparr>
   \<and> HSBToHSL H (Fin 0) (Fin 0) = \<lparr>hsl_h = H * Fin 60, hsl_s = Fin 0, hsl_l = Fin 0\<rparr>
   \<and> HSLToHSB H (Fin x) (Fin 0) = \<lparr>hsb_h = Fin 0, hsb_s = Fin 0, hsb_b = Fin 0\<rparr>"
  by (simp add: HSBToHSL_def HSLToHSB_def Let_def)

text \<open>
  Claim C5, as stated, fails: a string of five hexadecimal digits has fewer than six,
  and \<open>HexToRGB\<close> returns three numbers for it, the last one parsed from the single
  digit that is left.
\<close>

theorem HexToRGB_five_digits_numeric:
  "HexToRGB ''#abcde'' = \<lparr>rgb_r = Fin 171, rgb_g = Fin 205, rgb_b = Fin 14\<rparr>"
  by (simp add: HexToRGB_def Let_def substring_def parseInt16_def isWhiteSpace_def
      hexDigit_def)

text \<open>
  Claim C5, amended.  When at most four characters are left after the first \<open>#\<close> is
  removed, the third substring is empty and the \<open>b\<close> field of the result is \<open>NaN\<close>.
\<close>

theorem HexToRGB_short_blue_NaN:
  "length (replace_hash hex) \<le> 4 \<Longrightarrow> rgb_b (HexToRGB hex) = NaN"
  by (simp add: HexToRGB_def Let_def substring_def parseInt16_def)

theorem HexToRGB_short_blue_NaN_witness:
  "length (replace_hash ''#abcd'') \<le> 4 \<and> rgb_b (HexToRGB ''#abcd'') = NaN"
  using HexToRGB_short_blue_NaN [of "''#abcd''"] by simp

section \<open>Properties of the picker\<close>

lemma setHue_fields [simp]:
  "radius (setHue p a) = radius p" "ringsize (setHue p a) = ringsize p"
  "squareLength (setHue p a) = squareLength p"
  "outerActive (setHue p a) = outerActive p" "innerActive (setHue p a) = innerActive p"
  "ix (setHue p a) = ix p" "iy (setHue p a) = iy p"
  "can_offsetLeft (setHue p a) = can_offsetLeft p" "can_offsetTop (setHue p a) = can_offsetTop p"
  by (simp_all add: setHue_def Let_def)

lemma setIXY_fields [simp]:
  "radius (setIXY p x y) = radius p" "ringsize (setIXY p x y) = ringsize p"
  "squareLength (setIXY p x y) = squareLength p"
  "outerActive (setIXY p x y) = outerActive p" "innerActive (setIXY p x y) = innerActive p"
  "hue (setIXY p x y) = hue p"
  "can_offsetLeft (setIXY p x y) = can_offsetLeft p" "can_offsetTop (setIXY p x y) = can_offsetTop p"
  by (simp_all add: setIXY_def Let_def)

lemma updateOuter_fields [simp]:
  "radius (updateOuter p e) = radius p" "ringsize (updateOuter p e) = ringsize p"
  "squareLength (updateOuter p e) = squareLength p"
  "outerActive (updateOuter p e) = outerActive p" "innerActive (updateOuter p e) = innerActive p"
  "can_offsetLeft (updateOuter p e) = can_offsetLeft p"
  "can_offsetTop (updateOuter p e) = can_offsetTop p"
  by (simp_all add: updateOuter_def Let_def)

lemma updateInner_fields [simp]:
  "radius (updateInner p e) = radius p" "ringsize (updateInner p e) = ringsize p"
  "squareLength (updateInner p e) = squareLength p"
  "outerActive (updateInner p e) = outerActive p" "innerActive (updateInner p e) = innerActive p"
  "can_offsetLeft (updateInner p e) = can_offsetLeft p"
  "can_offsetTop (updateInner p e) = can_offsetTop p"
  by (simp_all add: updateInner_def Let_def)

lemma normalizePos_Fin: "\<exists>x y. normalizePos p e = \<lparr>pos_x = Fin x, pos_y = Fin y\<rparr>"
  by (cases e) (simp_all add: normalizePos_def)

text \<open>
  Claim C10.  \<open>setHue\<close> changes the fields \<open>hue\<close>, \<open>ox\<close> and \<open>oy\<close> and no other, and
  so does \<open>updateOuter\<close>, which ends in \<open>setHue\<close>; in particular the selection
  \<open>ix\<close>, \<open>iy\<close> in the square is the same before and after.
\<close>

theorem setHue_frame:
  "setHue p a = p\<lparr>hue := hue (setHue p a), ox := ox (setHue p a), oy := oy (setHue p a)\<rparr>
   \<and> ix (setHue p a) = ix p \<and> iy (setHue p a) = iy p
   \<and> updateOuter p e =
       p\<lparr>hue := hue (updateOuter p e), ox := ox (updateOuter p e), oy := oy (updateOuter p e)\<rparr>
   \<and> ix (updateOuter p e) = ix p \<and> iy (updateOuter p e) = iy p"
  by (simp add: setHue_def updateOuter_def Let_def)

subsection \<open>The hue\<close>

lemma hue_setHue_Fin:
  "hue (setHue p (Fin a)) =
     Fin (if a * (180 / pi) < 0 then a * (180 / pi) + 360 else a * (180 / pi))"
  by (simp add: setHue_def Let_def Math_PI_def)

lemma hue_setHue_range:
  assumes "- (2 * pi) \<le> a" "a \<le> 2 * pi"
  shows "Fin 0 \<le> hue (setHue p (Fin a)) \<and> hue (setHue p (Fin a)) \<le> Fin 360"
proof -
  have "a * (180 / pi) \<le> 360" using assms(2) pi_gt_zero
    by (simp add: field_simps)
  moreover have "- 360 \<le> a * (180 / pi)" using assms(1) pi_gt_zero
    by (simp add: field_simps)
  ultimately show ?thesis by (simp add: hue_setHue_Fin)
qed

lemma hue_HSLPicker:
  "hue (HSLPicker offL offT r (Fin h0)) = Fin (if h0 < 0 then h0 + 360 else h0)"
  by (simp add: HSLPicker_def setHue_def Let_def Math_PI_def)

text \<open>
  Claim C3: after any sequence of calls of \<open>setHue\<close> the stored hue is in
  \<open>[0, 360)\<close>.  The constructor documents the field as \<open>Hue (0 - 360)\<close>, and
  \<open>setHue\<close> wraps a negative hue by adding 360 once; it does nothing else, so the
  wrap misses every angle above \<open>2\<pi>\<close> and below \<open>-2\<pi>\<close>: after
  \<open>setHue(10)\<close> on a picker of radius 200 the stored hue is above 360 (about 573).
\<close>

theorem setHue_hue_above_360:
  "Fin 360 < hue (run_setHue (HSLPicker 0 0 (Fin 200) (Fin 0)) [Fin 10])"
proof -
  have "pi < 5" using pi_less_4 by simp
  then have "360 < 10 * (180 / pi)" using pi_gt_zero by (simp add: field_simps)
  then show ?thesis by (simp add: run_setHue_def hue_setHue_Fin)
qed

text \<open>
  Where the single wrap is enough: for a picker constructed with a hue between
  \<open>-360\<close> and 360 degrees and angles between \<open>-2\<pi>\<close> and \<open>2\<pi>\<close> radians,
  which covers every result of \<open>Math.atan2\<close>, the stored hue is between 0 and 360.
\<close>

lemma setHue_hue_range:
  assumes "- 360 \<le> h0" "h0 \<le> 360"
    and "\<forall>a\<in>set as. - (2 * pi) \<le> a \<and> a \<le> 2 * pi"
  shows "Fin 0 \<le> hue (run_setHue (HSLPicker offL offT r (Fin h0)) (map Fin as))
       \<and> hue (run_setHue (HSLPicker offL offT r (Fin h0)) (map Fin as)) \<le> Fin 360"
proof (cases as rule: rev_cases)
  case Nil
  then show ?thesis using assms(1,2) by (simp add: run_setHue_def hue_HSLPicker)
next
  case (snoc bs a)
  then have "- (2 * pi) \<le> a" "a \<le> 2 * pi" using assms(3) by auto
  then show ?thesis using snoc by (simp add: run_setHue_def hue_setHue_range)
qed

lemma setHue_hue_range_example:
  "Fin 0 \<le> hue (run_setHue (HSLPicker 0 0 (Fin 200) (Fin 0)) (map Fin [- 1, 3]))
   \<and> hue (run_setHue (HSLPicker 0 0 (Fin 200) (Fin 0)) (map Fin [- 1, 3])) \<le> Fin 360"
proof -
  have "\<forall>a\<in>set [- 1, 3 :: real]. - (2 * pi) \<le> a \<and> a \<le> 2 * pi"
    using pi_ge_two by simp
  then show ?thesis
    using setHue_hue_range [of 0 "[- 1, 3]" 0 0 "Fin 200"] by simp
qed

subsection \<open>The drag flags\<close>

lemma mDown_flags:
  "outerActive (mDown p e) = (outerActive p \<or> in_ring p e)"
  "innerActive (mDown p e) = (innerActive p \<or> in_square p e)"
  by (auto simp add: mDown_def in_ring_def in_square_def Let_def)

lemma mDown_fields [simp]:
  "radius (mDown p e) = radius p" "ringsize (mDown p e) = ringsize p"
  "squareLength (mDown p e) = squareLength p"
  "can_offsetLeft (mDown p e) = can_offsetLeft p" "can_offsetTop (mDown p e) = can_offsetTop p"
  by (simp_all add: mDown_def Let_def)

lemma mDown_geometry [simp]: "geometry (mDown p e) = geometry p"
  by (simp add: geometry_def)

lemma mMove_geometry [simp]: "geometry (mMove p e) = geometry p"
  by (simp add: mMove_def geometry_def)

lemma mUp_geometry [simp]: "geometry (mUp p) = geometry p"
  by (simp add: mUp_def geometry_def)

lemma mMove_flags [simp]:
  "outerActive (mMove p e) = outerActive p" "innerActive (mMove p e) = innerActive p"
  by (simp_all add: mMove_def)

text \<open>
  No position passes both tests of \<open>mDown\<close>: half the side of the square is
  \<open>sqrt 2 / 2\<close> times the inner radius of the ring, which is less than that radius when
  it is positive, and no distance is below a negative bound.
\<close>

lemma ring_square_disjoint:
  assumes "geometry p"
  shows "\<not> (in_ring p e \<and> in_square p e)"
proof (cases "radius p")
  case (Fin r)
  obtain x y where q: "normalizePos p e = \<lparr>pos_x = Fin x, pos_y = Fin y\<rparr>"
    using normalizePos_Fin by blast
  define d where "d = sqrt ((r - x) * (r - x) + (r - y) * (r - y))"
  have d0: "0 \<le> d" by (simp add: d_def)
  have nn: "\<not> (r - x) * (r - x) + (r - y) * (r - y) < 0"
    by (simp add: not_less)
  have dist: "Math_sqrt (Math_pow2 (radius p - pos_x (normalizePos p e))
      + Math_pow2 (radius p - pos_y (normalizePos p e))) = Fin d"
    using nn by (simp add: Fin q Math_pow2_def d_def)
  have rs: "ringsize p = Fin (r / 5)" using assms Fin by (simp add: geometry_def)
  have sl: "squareLength p = Fin (sqrt 2 * (r - r / 5))"
    using assms Fin rs by (simp add: geometry_def)
  show ?thesis
  proof
    assume a: "in_ring p e \<and> in_square p e"
    then have 1: "r - r / 5 < d" and 2: "d < sqrt 2 * (r - r / 5) / 2"
      using dist rs sl Fin by (simp_all add: in_ring_def in_square_def Let_def)
    have s2: "sqrt 2 < 2" by (rule sqrt2_less_2)
    define t where "t = r - r / 5"
    have "t < sqrt 2 * t / 2" using 1 2 by (simp add: t_def)
    then have "t * (2 - sqrt 2) < 0" by (simp add: algebra_simps)
    then have "t < 0" using s2 by (simp add: mult_less_0_iff)
    then have "sqrt 2 * t / 2 \<le> 0" by (simp add: mult_le_0_iff)
    then show False using 2 d0 by (simp add: t_def)
  qed
next
  case NaN
  then show ?thesis by (simp add: in_ring_def Let_def)
next
  case PInf
  obtain x y where q: "normalizePos p e = \<lparr>pos_x = Fin x, pos_y = Fin y\<rparr>"
    using normalizePos_Fin by blast
  show ?thesis using PInf q by (simp add: in_ring_def Let_def minus_jsnum_def Math_pow2_def)
next
  case NInf
  obtain x y where q: "normalizePos p e = \<lparr>pos_x = Fin x, pos_y = Fin y\<rparr>"
    using normalizePos_Fin by blast
  show ?thesis using NInf q by (simp add: in_ring_def Let_def minus_jsnum_def Math_pow2_def)
qed

lemma run_flags_ok:
  "press_after_release down evs \<Longrightarrow> flags_ok down p \<Longrightarrow>
     \<not> (outerActive (run_inputs p evs) \<and> innerActive (run_inputs p evs))"
proof (induction evs arbitrary: down p)
  case Nil
  then show ?case by (simp add: run_inputs_def flags_ok_def)
next
  case (Cons ev evs)
  show ?case
  proof (cases ev)
    case (Press e)
    with Cons.prems have nd: "\<not> down" and rest: "press_after_release True evs" by simp_all
    have "flags_ok True (mDown p e)"
      using Cons.prems(2) nd ring_square_disjoint [of p e]
      by (auto simp add: flags_ok_def mDown_flags)
    from Cons.IH [OF rest this] show ?thesis using Press by (simp add: run_inputs_def)
  next
    case (Move e)
    with Cons.prems have rest: "press_after_release down evs" by simp
    have "flags_ok down (mMove p e)" using Cons.prems(2) by (simp add: flags_ok_def)
    from Cons.IH [OF rest this] show ?thesis using Move by (simp add: run_inputs_def)
  next
    case Release
    with Cons.prems have rest: "press_after_release False evs" by simp
    have "flags_ok False (mUp p)"
      using Cons.prems(2) by (simp add: flags_ok_def mUp_def geometry_def)
    from Cons.IH [OF rest this] show ?thesis using Release by (simp add: run_inputs_def)
  qed
qed

lemma HSLPicker_flags_ok: "flags_ok False (HSLPicker offL offT r h0)"
  by (simp add: flags_ok_def HSLPicker_def geometry_def)

lemma HSLPicker_fields [simp]:
  "radius (HSLPicker offL offT r h0) = r"
  "ringsize (HSLPicker offL offT r h0) = r / Fin 5"
  "squareLength (HSLPicker offL offT r h0) = Math_sqrt (Fin 2) * (r - r / Fin 5)"
  "outerActive (HSLPicker offL offT r h0) = False"
  "innerActive (HSLPicker offL offT r h0) = False"
  "ix (HSLPicker offL offT r h0) = r" "iy (HSLPicker offL offT r h0) = r"
  "can_offsetLeft (HSLPicker offL offT r h0) = offL"
  "can_offsetTop (HSLPicker offL offT r h0) = offT"
  by (simp_all add: HSLPicker_def)

lemma in_ring_mDown [simp]: "in_ring (mDown p e) e' = in_ring p e'"
  by (simp add: in_ring_def normalizePos_def)

lemma in_square_mDown [simp]: "in_square (mDown p e) e' = in_square p e'"
  by (simp add: in_square_def normalizePos_def)

text \<open>
  Claim C7, as stated, fails: \<open>mDown\<close> sets a flag and never clears the other one, so a
  press in the ring followed, with no release between, by a press in the square leaves
  both flags set.
\<close>

theorem two_presses_set_both_flags:
  "outerActive (run_inputs (HSLPicker 0 0 (Fin 100) (Fin 0))
      [Press (MouseEvt 190 100), Press (MouseEvt 100 100)])
   \<and> innerActive (run_inputs (HSLPicker 0 0 (Fin 100) (Fin 0))
      [Press (MouseEvt 190 100), Press (MouseEvt 100 100)])"
proof -
  have s: "sqrt 8100 = 90" by (rule real_sqrt_unique) simp_all
  have "in_ring (HSLPicker 0 0 (Fin 100) (Fin 0)) (MouseEvt 190 100)"
    by (simp add: in_ring_def normalizePos_def Math_pow2_def s)
  moreover have "in_square (HSLPicker 0 0 (Fin 100) (Fin 0)) (MouseEvt 100 100)"
    by (simp add: in_square_def normalizePos_def Math_pow2_def)
  ultimately show ?thesis by (simp add: run_inputs_def mDown_flags)
qed

text \<open>
  Claim C7, amended.  In every state reached from a new picker by press, move and
  release events in which each press comes after the release of the press before it, at
  most one of the flags \<open>outerActive\<close> and \<open>innerActive\<close> is set.  No radius and no
  position are excluded: one press never sets both flags.
\<close>

theorem drag_flags_exclusive:
  "press_after_release False evs \<Longrightarrow>
     \<not> (outerActive (run_inputs (HSLPicker offL offT r h0) evs)
        \<and> innerActive (run_inputs (HSLPicker offL offT r h0) evs))"
  using run_flags_ok [OF _ HSLPicker_flags_ok] by blast

theorem drag_flags_exclusive_witness:
  "\<not> (outerActive (run_inputs (HSLPicker 0 0 (Fin 100) (Fin 0))
          [Press (MouseEvt 190 100), Move (MouseEvt 100 100), Release, Press (MouseEvt 100 100)])
      \<and> innerActive (run_inputs (HSLPicker 0 0 (Fin 100) (Fin 0))
          [Press (MouseEvt 190 100), Move (MouseEvt 100 100), Release, Press (MouseEvt 100 100)]))"
  using drag_flags_exclusive [of "[Press (MouseEvt 190 100), Move (MouseEvt 100 100), Release,
    Press (MouseEvt 100 100)]" 0 0 "Fin 100" "Fin 0"] by simp

subsection \<open>The selection in the square\<close>

lemma bound1_range:
  assumes "3 / 2 \<le> h"
  shows "\<exists>v. bound1 (Fin x) (Fin r) (Fin h) = Fin v \<and> r - h \<le> v \<and> v \<le> r + h"
proof (cases "r < x")
  case True
  define v where "v = min x (r + h) - 1"
  have e: "bound1 (Fin x) (Fin r) (Fin h) = Fin (of_int \<lfloor>v + 1 / 2\<rfloor>)"
    using True by (simp add: bound1_def v_def)
  have "r - 1 < v" "v \<le> r + h - 1" using True assms by (simp_all add: v_def)
  with floor_half_bounds [of v] assms have "r - h \<le> of_int \<lfloor>v + 1 / 2\<rfloor>"
    "of_int \<lfloor>v + 1 / 2\<rfloor> \<le> r + h" by linarith+
  with e show ?thesis by blast
next
  case False
  define v where "v = max x (r - h) + 1"
  have e: "bound1 (Fin x) (Fin r) (Fin h) = Fin (of_int \<lfloor>v + 1 / 2\<rfloor>)"
    using False by (simp add: bound1_def v_def)
  have "r - h + 1 \<le> v" "v \<le> r + 1" using False assms by (simp_all add: v_def)
  with floor_half_bounds [of v] assms have "r - h \<le> of_int \<lfloor>v + 1 / 2\<rfloor>"
    "of_int \<lfloor>v + 1 / 2\<rfloor> \<le> r + h" by linarith+
  with e show ?thesis by blast
qed

lemma setIXY_bound1:
  "setIXY p x y = p\<lparr>ix := bound1 x (radius p) (squareLength p / Fin 2),
                     iy := bound1 y (radius p) (squareLength p / Fin 2)\<rparr>"
  by (simp add: setIXY_def bound1_def Let_def)

lemma setIXY_in_square:
  assumes "radius p = Fin r" "squareLength p = Fin sl" "3 \<le> sl"
  shows "inner_in_square (setIXY p (Fin x) (Fin y))"
proof -
  have h: "3 / 2 \<le> sl / 2" using assms(3) by simp
  obtain v where v: "bound1 (Fin x) (Fin r) (Fin (sl / 2)) = Fin v" "r - sl / 2 \<le> v" "v \<le> r + sl / 2"
    using bound1_range [OF h] by blast
  obtain w where w: "bound1 (Fin y) (Fin r) (Fin (sl / 2)) = Fin w" "r - sl / 2 \<le> w" "w \<le> r + sl / 2"
    using bound1_range [OF h] by blast
  show ?thesis
    using v w assms(1,2) by (simp add: inner_in_square_def setIXY_bound1)
qed

lemma HSLToHSB_finite:
  "\<exists>h s b. HSLToHSB (Fin H) (Fin S) (Fin L) = \<lparr>hsb_h = Fin h, hsb_s = Fin s, hsb_b = Fin b\<rparr>"
  by (simp add: HSLToHSB_def Let_def)

lemma updateInner_in_square:
  assumes "radius p = Fin r" "squareLength p = Fin sl" "3 \<le> sl"
  shows "inner_in_square (updateInner p e)"
proof -
  obtain x y where q: "normalizePos p e = \<lparr>pos_x = Fin x, pos_y = Fin y\<rparr>"
    using normalizePos_Fin by blast
  show ?thesis using setIXY_in_square [OF assms] by (simp add: updateInner_def q)
qed

lemma setColor_in_square:
  assumes "radius p = Fin r" "squareLength p = Fin sl" "3 \<le> sl"
    and "0 \<le> R" "R \<le> 255" "0 \<le> G" "G \<le> 255" "0 \<le> B" "B \<le> 255"
  shows "inner_in_square (setColor p (Fin R) (Fin G) (Fin B))"
proof -
  note rng = RGBtoHSL_channels [OF assms(4-9)]
  obtain hh where ch: "hsl_h (RGBtoHSL (Fin R) (Fin G) (Fin B)) = Fin hh"
    using int_between_Fin [OF rng(1)] by blast
  obtain ss where cs: "hsl_s (RGBtoHSL (Fin R) (Fin G) (Fin B)) = Fin ss"
    using int_between_Fin [OF rng(2)] by blast
  obtain ll where cl: "hsl_l (RGBtoHSL (Fin R) (Fin G) (Fin B)) = Fin ll"
    using int_between_Fin [OF rng(3)] by blast
  obtain h s b where v: "HSLToHSB (Fin (hh / 60)) (Fin (ss / 100)) (Fin (ll / 100))
      = \<lparr>hsb_h = Fin h, hsb_s = Fin s, hsb_b = Fin b\<rparr>"
    using HSLToHSB_finite by blast
  let ?p1 = "setHue p (Fin h * Math_PI / Fin 180)"
  have p1: "radius ?p1 = Fin r" "squareLength ?p1 = Fin sl" using assms(1,2) by simp_all
  show ?thesis
    using setIXY_in_square [OF p1 assms(3)] assms(1,2)
    by (simp add: setColor_def Let_def ch cs cl v)
qed

lemma do_call_fields [simp]:
  "radius (do_call p c) = radius p" "squareLength (do_call p c) = squareLength p"
  by (cases c; simp add: setColor_def Let_def)+

lemma run_calls_in_square:
  assumes "radius p = Fin r" "squareLength p = Fin sl" "3 \<le> sl"
    and "inner_in_square p" "\<forall>c\<in>set cs. channels_ok c"
  shows "inner_in_square (run_calls p cs)"
  using assms
proof (induction cs arbitrary: p)
  case Nil
  then show ?case by (simp add: run_calls_def)
next
  case (Cons c cs)
  have "inner_in_square (do_call p c)"
  proof (cases c)
    case (UpdateInner e)
    then show ?thesis using updateInner_in_square [OF Cons.prems(1-3)] by simp
  next
    case (SetColor R G B)
    then show ?thesis using setColor_in_square [OF Cons.prems(1-3)] Cons.prems(5) by simp
  qed
  then have "inner_in_square (run_calls (do_call p c) cs)"
    using Cons.prems by (intro Cons.IH) simp_all
  then show ?case by (simp add: run_calls_def)
qed

lemma centre_in_square:
  assumes "radius p = Fin r" "squareLength p = Fin sl" "ix p = Fin r" "iy p = Fin r" "0 \<le> sl"
  shows "inner_in_square p"
  using assms by (simp add: inner_in_square_def)

text \<open>
  Claim C4: \<open>ix\<close> and \<open>iy\<close> always lie between \<open>radius - squareLength / 2\<close> and
  \<open>radius + squareLength / 2\<close>.  \<open>_setIXY\<close> is documented as updating them
  \<open>but bounded\<close>, and it does bound the coordinate to the square, but it then moves it
  one pixel and rounds it, which can leave the square again: on a picker of radius 1
  the square is about 1.13 wide, and for a pointer at the centre \<open>(1, 1)\<close>
  \<open>updateInner\<close> stores \<open>ix = 2\<close>, to the right of the square.
\<close>

theorem small_picker_selection_outside:
  "ix (run_calls (HSLPicker 0 0 (Fin 1) (Fin 0)) [UpdateInner (MouseEvt 1 1)]) = Fin 2
   \<and> \<not> inner_in_square (run_calls (HSLPicker 0 0 (Fin 1) (Fin 0)) [UpdateInner (MouseEvt 1 1)])"
proof -
  let ?q = "updateInner (HSLPicker 0 0 (Fin 1) (Fin 0)) (MouseEvt 1 1)"
  have run: "run_calls (HSLPicker 0 0 (Fin 1) (Fin 0)) [UpdateInner (MouseEvt 1 1)] = ?q"
    by (simp add: run_calls_def)
  have s: "sqrt 2 < 2" by (rule sqrt2_less_2)
  have m: "max 1 (1 - sqrt 2 * (4 / 5) / 2) = 1" by (simp add: max_def)
  have i: "ix ?q = Fin 2"
    using m by (simp add: updateInner_def normalizePos_def setIXY_def Let_def)
  have "\<not> (2 \<le> 1 + sqrt 2 * (4 / 5) / 2)" using s by simp
  then have "\<not> ix ?q \<le> radius ?q + squareLength ?q / Fin 2" by (simp add: i)
  then have "\<not> inner_in_square ?q" by (simp add: inner_in_square_def)
  then show ?thesis using i run by simp
qed

text \<open>
  Where the bound is kept: on a square at least 3 wide the pixel and the rounding stay
  inside, after the construction and after any sequence of \<open>updateInner\<close> calls at
  any pointer position and \<open>setColor\<close> calls with channels between 0 and 255.
\<close>

lemma inner_selection_in_square:
  assumes "3 \<le> sqrt 2 * (r - r / 5)" and "\<forall>c\<in>set cs. channels_ok c"
  shows "inner_in_square (run_calls (HSLPicker offL offT (Fin r) h0) cs)"
proof -
  let ?p = "HSLPicker offL offT (Fin r) h0"
  define sl where "sl = sqrt 2 * (r - r / 5)"
  have sl3: "3 \<le> sl" using assms(1) by (simp add: sl_def)
  have 1: "radius ?p = Fin r" by simp
  have 2: "squareLength ?p = Fin sl" by (simp add: sl_def)
  have 3: "inner_in_square ?p"
    by (rule centre_in_square [OF 1 2]) (use sl3 in simp_all)
  show ?thesis by (rule run_calls_in_square [OF 1 2 sl3 3 assms(2)])
qed

lemma inner_selection_in_square_example:
  "inner_in_square (run_calls (HSLPicker 0 0 (Fin 200) (Fin 0))
     [UpdateInner (MouseEvt 5000 (- 40)), SetColor 255 0 0, UpdateInner (MouseEvt 210 190)])"
proof -
  have a: "1 \<le> sqrt 2" by simp
  have "3 \<le> sqrt 2 * 160" using mult_right_mono [OF a, of 160] by linarith
  then have "3 \<le> sqrt 2 * (200 - 200 / 5)" by simp
  moreover have "\<forall>c\<in>set [UpdateInner (MouseEvt 5000 (- 40)), SetColor 255 0 0,
      UpdateInner (MouseEvt 210 190)]. channels_ok c" by simp
  ultimately show ?thesis by (rule inner_selection_in_square)
qed

section \<open>HSBToHSL in binary64 arithmetic\<close>

lemma round_half_even_int [simp]: "round_half_even (of_int n) = n"
  by (simp add: round_half_even_def)

lemma floor_log2_eq:
  assumes "2 powi k \<le> x" "x < 2 powi (k + 1)"
  shows "\<lfloor>log 2 x\<rfloor> = k"
proof -
  have pos: "0 < x" using assms(1) zero_less_power_int [of "2 :: real" k] by linarith
  have 1: "2 powr (real_of_int k) = (2::real) powi k"
    by (rule powr_real_of_int') simp_all
  have "2 powr (real_of_int (k + 1)) = (2::real) powi (k + 1)"
    by (rule powr_real_of_int') simp_all
  then have 2: "2 powr (real_of_int k + 1) = (2::real) powi (k + 1)" by simp
  have "2 powr (real_of_int k) \<le> x \<and> x < 2 powr (real_of_int k + 1)"
    unfolding 1 2 using assms by simp
  then show ?thesis using floor_log_eq_powr_iff [OF pos, of 2 k] by simp
qed

lemma binade_eq:
  assumes "2 powi k \<le> \<bar>x\<bar>" "\<bar>x\<bar> < 2 powi (k + 1)" "- 1022 \<le> k"
  shows "binade x = k"
  using floor_log2_eq [OF assms(1,2)] assms(3) by (simp add: binade_def)

lemma to_double_eval:
  assumes "x \<noteq> 0" "binade x = e" "round_half_even (x / 2 powi (e - 52)) = n"
    and "\<bar>of_int n * 2 powi (e - 52)\<bar> < (2::real) powi 1024"
  shows "to_double x = Fin (of_int n * 2 powi (e - 52))"
  using assms by (simp add: to_double_def Let_def)

lemma to_double_scaled_int:
  assumes m: "2 ^ j \<le> \<bar>m\<bar>" "\<bar>m\<bar> < 2 ^ (j + 1)" and j: "j \<le> 52"
    and k: "- 1022 \<le> k + int j" "k + int j < 1024"
  shows "to_double (of_int m * 2 powi k) = Fin (of_int m * 2 powi k)"
proof -
  define x :: real where "x = of_int m * 2 powi k"
  have p: "(0::real) < 2 powi k" by simp
  have ax: "\<bar>x\<bar> = of_int \<bar>m\<bar> * 2 powi k" by (simp add: x_def abs_mult)
  have m0: "m \<noteq> 0" using m(1) by auto
  have x0: "x \<noteq> 0" using m0 by (simp add: x_def)
  have lo: "2 powi (k + int j) \<le> \<bar>x\<bar>"
  proof -
    have "(2::real) powi (k + int j) = 2 ^ j * 2 powi k"
      by (simp add: power_int_add mult.commute)
    moreover have "(2::real) ^ j \<le> of_int \<bar>m\<bar>" using m(1) by (metis of_int_le_iff of_int_numeral of_int_power)
    ultimately show ?thesis unfolding ax using p by (simp add: mult_right_mono)
  qed
  have hi: "\<bar>x\<bar> < 2 powi (k + int j + 1)"
  proof -
    have "(2::real) powi (k + int j + 1) = 2 ^ (j + 1) * 2 powi k"
      by (simp add: power_int_add mult.commute mult.left_commute)
    moreover have "of_int \<bar>m\<bar> < (2::real) ^ (j + 1)" using m(2) by (metis of_int_less_iff of_int_numeral of_int_power)
    ultimately show ?thesis unfolding ax using p by (simp add: mult_strict_right_mono)
  qed
  have b: "binade x = k + int j" by (rule binade_eq [OF lo hi k(1)])
  define n :: int where "n = m * 2 ^ (52 - j)"
  have "(2::real) ^ (52 - j) * 2 powi (k + int j - 52) = 2 powi k"
  proof -
    have "(2::real) ^ (52 - j) = 2 powi (52 - int j)" using j by (simp add: power_int_def nat_diff_distrib')
    moreover have "(2::real) powi (52 - int j) * 2 powi (k + int j - 52)
        = 2 powi ((52 - int j) + (k + int j - 52))"
      by (rule power_int_add [symmetric]) simp
    ultimately show ?thesis by simp
  qed
  then have g: "of_int n * 2 powi (k + int j - 52) = x"
    by (simp add: n_def x_def mult.assoc)
  then have "x / 2 powi (k + int j - 52) = of_int n"
    by (simp add: field_simps)
  then have r: "round_half_even (x / 2 powi (k + int j - 52)) = n" by simp
  have "2 powi (k + int j + 1) \<le> (2::real) powi 1024"
    using k(2) by (intro power_int_increasing) simp_all
  then have lt: "\<bar>of_int n * 2 powi (k + int j - 52)\<bar> < (2::real) powi 1024"
    unfolding g using hi by linarith
  show ?thesis using to_double_eval [OF x0 b r lt] g unfolding x_def by simp
qed


lemma to_double_0 [simp]: "to_double 0 = Fin 0"
  by (simp add: to_double_def)

lemma to_double_values:
  "to_double (1 / 2) = Fin (1 / 2)"
  "to_double 1 = Fin 1"
  "to_double 2 = Fin 2"
  "to_double 100 = Fin 100"
  "to_double (1 / 2 ^ 59) = Fin (1 / 2 ^ 59)"
  "to_double (1 / 2 ^ 60) = Fin (1 / 2 ^ 60)"
  "to_double (1 / 2 ^ 61) = Fin (1 / 2 ^ 61)"
  "to_double (100 / 2 ^ 60) = Fin (100 / 2 ^ 60)"
  using to_double_scaled_int [of 0 1 "- 1"] to_double_scaled_int [of 0 1 0]
    to_double_scaled_int [of 0 1 1] to_double_scaled_int [of 6 100 0]
    to_double_scaled_int [of 0 1 "- 59"] to_double_scaled_int [of 0 1 "- 60"]
    to_double_scaled_int [of 0 1 "- 61"] to_double_scaled_int [of 6 100 "- 60"]
  by (simp_all add: power_int_minus field_simps)

lemma round_half_even_frac:
  assumes "0 \<le> f" "f < 1"
  shows "f < 1 / 2 \<Longrightarrow> round_half_even (of_int n + f) = n"
    and "1 / 2 < f \<Longrightarrow> round_half_even (of_int n + f) = n + 1"
proof -
  have "\<lfloor>of_int n + f\<rfloor> = n" using assms by linarith
  then show "f < 1 / 2 \<Longrightarrow> round_half_even (of_int n + f) = n"
    and "1 / 2 < f \<Longrightarrow> round_half_even (of_int n + f) = n + 1"
    by (simp_all add: round_half_even_def Let_def)
qed

lemma to_double_below_minus_one: "to_double (1 / 2 ^ 59 - 1) = Fin (- 1)"
proof -
  define x :: real where "x = 1 / 2 ^ 59 - 1"
  have x0: "x \<noteq> 0" by (simp add: x_def)
  have b: "binade x = - 1" by (rule binade_eq) (simp_all add: x_def power_int_minus)
  have e: "x / 2 powi (- 1 - 52) = of_int (- (2 ^ 53)) + 1 / 64"
    by (simp add: x_def power_int_minus field_simps)
  have r: "round_half_even (x / 2 powi (- 1 - 52)) = - (2 ^ 53)"
    unfolding e by (rule round_half_even_frac(1)) simp_all
  show ?thesis using to_double_eval [OF x0 b r] by (simp add: x_def power_int_minus)
qed

lemma to_double_below_two: "to_double (2 - 1 / 2 ^ 60) = Fin 2"
proof -
  define x :: real where "x = 2 - 1 / 2 ^ 60"
  have x0: "x \<noteq> 0" by (simp add: x_def)
  have b: "binade x = 0" by (rule binade_eq) (simp_all add: x_def)
  have e: "x / 2 powi (0 - 52) = of_int (2 ^ 53 - 1) + 255 / 256"
    by (simp add: x_def power_int_minus field_simps)
  have "round_half_even (x / 2 powi (0 - 52)) = (2 ^ 53 - 1) + 1"
    unfolding e by (rule round_half_even_frac(2)) simp_all
  then have r: "round_half_even (x / 2 powi (0 - 52)) = 2 ^ 53" by simp
  show ?thesis using to_double_eval [OF x0 b r] by (simp add: x_def power_int_minus)
qed

text \<open>
  Claim C8 asks that no division by zero escape the guards of \<open>HSBToHSL\<close>.  For a
  saturation of 0 and a brightness of \<open>2 ^ -60\<close>, \<open>2 * l - 1\<close> rounds to \<open>-1\<close>, the
  denominator \<open>1 - |2 * l - 1|\<close> is 0 and \<open>s\<close> is \<open>0 / 0\<close>; the brightness is neither 1
  nor 0, both guards are passed by, and the saturation returned is \<open>NaN\<close>.
\<close>

theorem HSBToHSL_binary64_dark_grey:
  "HSBToHSL_binary64 (Fin 0) (Fin 0) (Fin (1 / 2 ^ 60)) = \<lparr>hsl_h = Fin 0, hsl_s = NaN, hsl_l = Fin 0\<rparr>"
  using to_double_values [simplified] to_double_below_minus_one [simplified]
  by (simp add: HSBToHSL_binary64_def Let_def)

text \<open>
  Claim C9 asks that the saturation \<open>HSBToHSL\<close> returns be a percentage.  For a
  saturation of \<open>2 ^ -60\<close> and a brightness of 1, \<open>2 - S\<close> rounds to 2, the lightness
  is 1, the denominator is 0 and \<open>s\<close> is \<open>2 ^ -60 / 0\<close>: the saturation returned is
  \<open>Infinity\<close>.
\<close>

theorem HSBToHSL_binary64_faint_white:
  "HSBToHSL_binary64 (Fin 0) (Fin (1 / 2 ^ 60)) (Fin 1) = \<lparr>hsl_h = Fin 0, hsl_s = PInf, hsl_l = Fin 100\<rparr>"
  using to_double_values [simplified] to_double_below_two [simplified]
  by (simp add: HSBToHSL_binary64_def Let_def)


section \<open>The round trip through HSB\<close>

subsection \<open>The error of the binary64 operations\<close>

text \<open>
  A binary64 operation on numbers of moderate size returns a finite number within the
  relative error \<open>eps\<close> of the exact result; the lemmas on \<open>approx\<close> carry such
  errors through sums, products and quotients.
\<close>

lemma eps_pos: "0 < eps"
  by (simp add: eps_def)

lemma eps_small: "eps \<le> 1 / 10 ^ 15"
  by (simp add: eps_def)

lemma round_half_even_err: "\<bar>real_of_int (round_half_even z) - z\<bar> \<le> 1 / 2"
proof -
  have "real_of_int \<lfloor>z\<rfloor> \<le> z" "z < real_of_int \<lfloor>z\<rfloor> + 1" by linarith+
  then show ?thesis by (auto simp add: round_half_even_def Let_def abs_le_iff)
qed

lemma binade_le:
  assumes "x \<noteq> 0" "\<bar>x\<bar> \<le> B" "2 powi (- 1022) \<le> B"
  shows "2 powi (binade x) \<le> B"
proof (cases "- 1022 \<le> \<lfloor>log 2 \<bar>x\<bar>\<rfloor>")
  case True
  then have e: "binade x = \<lfloor>log 2 \<bar>x\<bar>\<rfloor>" by (simp add: binade_def)
  have "2 powr real_of_int \<lfloor>log 2 \<bar>x\<bar>\<rfloor> \<le> 2 powr (log 2 \<bar>x\<bar>)"
    by (rule powr_mono) simp_all
  also have "\<dots> = \<bar>x\<bar>" using assms(1) by simp
  finally have "2 powr real_of_int \<lfloor>log 2 \<bar>x\<bar>\<rfloor> \<le> \<bar>x\<bar>" .
  moreover have "2 powr real_of_int \<lfloor>log 2 \<bar>x\<bar>\<rfloor> = (2::real) powi \<lfloor>log 2 \<bar>x\<bar>\<rfloor>"
    by (rule powr_real_of_int') simp_all
  ultimately show ?thesis using assms(2) by (simp add: e)
next
  case False
  then have "binade x = - 1022" by (simp add: binade_def)
  then show ?thesis using assms(3) by simp
qed

lemma to_double_err:
  assumes B: "\<bar>x\<bar> \<le> B" "2 powi (- 1022) \<le> B" "B \<le> 2 ^ 1000"
  shows "approx (B * eps) (to_double x) x"
proof (cases "x = 0")
  case True
  have "0 \<le> B" using B(1) by linarith
  then have "0 \<le> B * eps" using eps_pos by simp
  then show ?thesis using True by (simp add: approx_def)
next
  case False
  define q :: real where "q = 2 powi (binade x - 52)"
  define n where "n = round_half_even (x / q)"
  define y where "y = real_of_int n * q"
  have q0: "0 < q" by (simp add: q_def)
  have "q = 2 powi (binade x) * 2 powi (- 52)"
    unfolding q_def by (subst power_int_add [symmetric]) simp_all
  then have q: "q = 2 powi (binade x) * (2 * eps)"
    by (simp add: eps_def power_int_minus)
  have qB: "q / 2 \<le> B * eps"
    using binade_le [OF False B(1,2)] eps_pos by (simp add: q)
  have "\<bar>real_of_int n - x / q\<bar> \<le> 1 / 2" unfolding n_def by (rule round_half_even_err)
  then have "\<bar>real_of_int n - x / q\<bar> * q \<le> 1 / 2 * q"
    using q0 by (intro mult_right_mono) simp_all
  moreover have "\<bar>real_of_int n - x / q\<bar> * q = \<bar>y - x\<bar>"
  proof -
    have "\<bar>real_of_int n - x / q\<bar> * q = \<bar>(real_of_int n - x / q) * q\<bar>"
      using q0 by (simp add: abs_mult)
    also have "(real_of_int n - x / q) * q = y - x"
      using q0 by (simp add: y_def field_simps)
    finally show ?thesis .
  qed
  ultimately have err: "\<bar>y - x\<bar> \<le> B * eps" using qB by simp
  have "B * eps \<le> B" using eps_small B(1) by (simp add: mult_left_le)
  then have "\<bar>y\<bar> \<le> 2 * B" using err B(1) by linarith
  also have "\<dots> \<le> 2 * 2 ^ 1000" using B(3) by simp
  also have "\<dots> < (2::real) powi 1024" by simp
  finally have fin: "\<not> 2 powi 1024 \<le> \<bar>y\<bar>" by simp
  have "to_double x = Fin y"
    using False fin unfolding to_double_def Let_def q_def [symmetric] n_def [symmetric] y_def [symmetric]
    by simp
  then show ?thesis using err by (simp add: approx_def)
qed

lemma approx_rnd:
  assumes "approx e v x" "\<bar>x\<bar> + e \<le> B" "1 / 2 ^ 20 \<le> B" "B \<le> 2 ^ 20"
  shows "approx (e + B * eps) (rnd v) x"
proof -
  obtain y where v: "v = Fin y" and y: "\<bar>y - x\<bar> \<le> e" using assms(1) by (auto simp add: approx_def)
  have 1: "\<bar>y\<bar> \<le> B" using y assms(2) by linarith
  have "(2::real) powi (- 1022) \<le> 1 / 2 ^ 20" by (simp add: power_int_minus field_simps)
  then have 2: "2 powi (- 1022) \<le> B" using assms(3) by linarith
  have "(2::real) ^ 20 \<le> 2 ^ 1000" by simp
  then have 3: "B \<le> 2 ^ 1000" using assms(4) by linarith
  obtain z where z: "to_double y = Fin z" "\<bar>z - y\<bar> \<le> B * eps"
    using to_double_err [OF 1 2 3] by (auto simp add: approx_def)
  have "\<bar>z - x\<bar> \<le> e + B * eps" using z(2) y by linarith
  then show ?thesis by (simp add: approx_def v z(1))
qed

lemma approx_exact: "approx 0 (Fin x) x"
  by (simp add: approx_def)

lemma approx_mono: "approx e v x \<Longrightarrow> e \<le> e' \<Longrightarrow> approx e' v x"
  by (auto simp add: approx_def)

lemma approx_add: "approx e1 v x \<Longrightarrow> approx e2 w y \<Longrightarrow> approx (e1 + e2) (v + w) (x + y)"
  by (auto simp add: approx_def)

lemma approx_diff: "approx e1 v x \<Longrightarrow> approx e2 w y \<Longrightarrow> approx (e1 + e2) (v - w) (x - y)"
  by (auto simp add: approx_def)

lemma approx_abs: "approx e v x \<Longrightarrow> approx e \<bar>v\<bar> \<bar>x\<bar>"
  by (auto simp add: approx_def)

lemma approx_mult:
  assumes "approx e1 v x" "approx e2 w y" "\<bar>x\<bar> \<le> Bx" "\<bar>y\<bar> + e2 \<le> By"
  shows "approx (e1 * By + Bx * e2) (v * w) (x * y)"
proof -
  obtain a where v: "v = Fin a" and a: "\<bar>a - x\<bar> \<le> e1" using assms(1) by (auto simp add: approx_def)
  obtain b where w: "w = Fin b" and b: "\<bar>b - y\<bar> \<le> e2" using assms(2) by (auto simp add: approx_def)
  have bB: "\<bar>b\<bar> \<le> By" using b assms(4) by linarith
  have "a * b - x * y = (a - x) * b + x * (b - y)" by (simp add: algebra_simps)
  then have "\<bar>a * b - x * y\<bar> \<le> \<bar>a - x\<bar> * \<bar>b\<bar> + \<bar>x\<bar> * \<bar>b - y\<bar>"
    by (metis abs_mult abs_triangle_ineq)
  also have "\<dots> \<le> e1 * By + Bx * e2"
    by (intro add_mono mult_mono a b bB assms(3)) (use a b assms(3) in linarith)+
  finally show ?thesis by (simp add: approx_def v w)
qed

lemma approx_div:
  assumes "approx e1 v x" "approx e2 w y" "0 < c" "c \<le> y" "2 * e2 \<le> c" "\<bar>x\<bar> \<le> R * y" "0 \<le> R"
  shows "approx (2 * (e1 + R * e2) / c) (v / w) (x / y)"
proof -
  obtain a where v: "v = Fin a" and a: "\<bar>a - x\<bar> \<le> e1" using assms(1) by (auto simp add: approx_def)
  obtain b where w: "w = Fin b" and b: "\<bar>b - y\<bar> \<le> e2" using assms(2) by (auto simp add: approx_def)
  have y0: "0 < y" using assms(3,4) by linarith
  have bc: "c / 2 \<le> b" using b assms(4,5) by linarith
  then have b0: "0 < b" using assms(3) by linarith
  have e1: "0 \<le> e1" using a by linarith
  have e2: "0 \<le> e2" using b by linarith
  have "a / b - x / y = ((a - x) - (x / y) * (b - y)) / b"
    using b0 y0 by (simp add: field_simps)
  then have eq: "\<bar>a / b - x / y\<bar> = \<bar>(a - x) - (x / y) * (b - y)\<bar> / b"
    using b0 by simp
  have r: "\<bar>x / y\<bar> \<le> R" using assms(6) y0 by (simp add: field_simps)
  have "\<bar>(a - x) - (x / y) * (b - y)\<bar> \<le> \<bar>a - x\<bar> + \<bar>x / y\<bar> * \<bar>b - y\<bar>"
    by (metis abs_mult abs_triangle_ineq4)
  also have "\<dots> \<le> e1 + R * e2"
    by (intro add_mono mult_mono a b r assms(7)) simp_all
  finally have num: "\<bar>(a - x) - (x / y) * (b - y)\<bar> \<le> e1 + R * e2" .
  have n0: "0 \<le> e1 + R * e2" using e1 e2 assms(7) by simp
  have "\<bar>a / b - x / y\<bar> \<le> (e1 + R * e2) / b"
    unfolding eq using num b0 by (simp add: divide_right_mono)
  also have "\<dots> \<le> (e1 + R * e2) / (c / 2)"
    using n0 bc assms(3) by (intro divide_left_mono) simp_all
  also have "\<dots> = 2 * (e1 + R * e2) / c" by simp
  finally have "\<bar>a / b - x / y\<bar> \<le> 2 * (e1 + R * e2) / c" .
  moreover have "v / w = Fin (a / b)" using b0 by (simp add: v w)
  ultimately show ?thesis by (simp add: approx_def)
qed

subsection \<open>Rounding to a nearest integer\<close>

text \<open>
  \<open>Math.round\<close> of an approximation of \<open>p / q\<close> is an integer nearest to
  \<open>p / q\<close>, as soon as the error is below \<open>1 / (2 * q)\<close>.
\<close>

lemma cand_near:
  fixes p q k :: int
  assumes q: "0 < q" and k: "\<bar>real_of_int k - real_of_int p / real_of_int q\<bar> \<le> 1 / 2"
  shows "k \<in> set (cand p q)"
proof -
  define n where "n = 2 * p + q"
  define d where "d = n div (2 * q)"
  define r where "r = n mod (2 * q)"
  have n: "n = 2 * q * d + r" by (simp add: d_def r_def)
  have r: "0 \<le> r" "r < 2 * q" using q by (simp_all add: r_def)
  define t where "t = real_of_int k - real_of_int p / real_of_int q"
  have qr: "0 < real_of_int q" using q by simp
  have t: "\<bar>t\<bar> \<le> 1 / 2" using k by (simp add: t_def)
  have "real_of_int (2 * (k * q - p)) = (2 * real_of_int q) * t"
    using qr by (simp add: t_def field_simps)
  then have "\<bar>real_of_int (2 * (k * q - p))\<bar> = (2 * real_of_int q) * \<bar>t\<bar>"
    using qr by (simp add: abs_mult)
  also have "\<dots> \<le> (2 * real_of_int q) * (1 / 2)"
    using t qr by (intro mult_left_mono) simp_all
  finally have "\<bar>real_of_int (2 * (k * q - p))\<bar> \<le> real_of_int q" by simp
  then have "\<bar>2 * (k * q - p)\<bar> \<le> q" by linarith
  then have b: "2 * q * k \<le> n" "n \<le> 2 * q * k + 2 * q"
    by (simp_all add: n_def abs_le_iff algebra_simps)
  have 1: "k \<le> d"
  proof (rule ccontr)
    assume "\<not> k \<le> d"
    then have "d + 1 \<le> k" by simp
    then have "2 * q * (d + 1) \<le> 2 * q * k" using q by (intro mult_left_mono) simp_all
    then show False using b(1) n r by (simp add: algebra_simps)
  qed
  have 2: "d - 1 \<le> k"
  proof (rule ccontr)
    assume "\<not> d - 1 \<le> k"
    then have "k + 2 \<le> d" by simp
    then have "2 * q * (k + 2) \<le> 2 * q * d" using q by (intro mult_left_mono) simp_all
    then show False using b(2) n r q by (simp add: algebra_simps)
  qed
  have 3: "k = d" if "2 * q * d \<noteq> n"
  proof (rule ccontr)
    assume "k \<noteq> d"
    then have "d = k + 1" using 1 2 by simp
    then have "2 * q * k + 2 * q = 2 * q * d" by (simp only: distrib_left mult_1_right)
    then show False using b(2) n r that by simp
  qed
  show ?thesis
    unfolding cand_def Let_def n_def [symmetric] d_def [symmetric]
    using 1 2 3 by auto
qed

lemma round_near:
  fixes p q :: int
  assumes a: "approx e v (real_of_int p / real_of_int q)" and q: "0 < q"
    and e: "2 * e * real_of_int q < 1"
  shows "\<exists>k. Math_round v = Fin (of_int k) \<and> \<bar>real_of_int k - real_of_int p / real_of_int q\<bar> \<le> 1 / 2"
proof -
  obtain y where v: "v = Fin y" and y: "\<bar>y - real_of_int p / real_of_int q\<bar> \<le> e"
    using a by (auto simp add: approx_def)
  define k where "k = \<lfloor>y + 1 / 2\<rfloor>"
  have k: "real_of_int k \<le> y + 1 / 2" "y + 1 / 2 < real_of_int k + 1"
    unfolding k_def by linarith+
  define z where "z = 2 * (k * q - p)"
  have qr: "0 < real_of_int q" using q by simp
  define t where "t = real_of_int k - real_of_int p / real_of_int q"
  have zt: "real_of_int z = (2 * real_of_int q) * t"
    using qr by (simp add: z_def t_def field_simps)
  have "\<bar>t\<bar> \<le> 1 / 2 + e" using k y unfolding t_def by linarith
  then have "(2 * real_of_int q) * \<bar>t\<bar> \<le> (2 * real_of_int q) * (1 / 2 + e)"
    using qr by (intro mult_left_mono) simp_all
  also have "\<dots> < real_of_int q + 1" using e by (simp add: algebra_simps)
  finally have "\<bar>real_of_int z\<bar> < real_of_int (q + 1)"
    using qr by (simp add: zt abs_mult)
  then have "\<bar>z\<bar> < q + 1" by linarith
  then have "\<bar>z\<bar> \<le> q" by simp
  then have "\<bar>real_of_int z\<bar> \<le> real_of_int q" by linarith
  then have "(2 * real_of_int q) * \<bar>t\<bar> \<le> (2 * real_of_int q) * (1 / 2)"
    using qr by (simp add: zt abs_mult)
  then have "\<bar>t\<bar> \<le> 1 / 2" using qr by (simp only: mult_le_cancel_left_pos) 
  then have "\<bar>real_of_int k - real_of_int p / real_of_int q\<bar> \<le> 1 / 2" by (simp only: t_def)
  moreover have "Math_round v = Fin (of_int k)" by (simp add: v k_def)
  ultimately show ?thesis by blast
qed

lemma round_cand:
  fixes p q :: int
  assumes "approx (k * eps) v (real_of_int p / real_of_int q)" "0 < q"
    "2 * k * real_of_int q \<le> 10 ^ 14" "0 \<le> k"
  shows "\<exists>n. Math_round v = Fin (of_int n) \<and> n \<in> set (cand p q)
    \<and> \<bar>real_of_int n - real_of_int p / real_of_int q\<bar> \<le> 1 / 2"
proof -
  have "2 * k * real_of_int q * eps \<le> 10 ^ 14 * (1 / 10 ^ 15)"
    using assms(3,4) assms(2) eps_small eps_pos by (intro mult_mono) simp_all
  then have "2 * (k * eps) * real_of_int q < 1" by (simp add: algebra_simps)
  from round_near [OF assms(1,2) this] cand_near [OF assms(2)] show ?thesis by blast
qed

lemma approx_rndK:
  assumes "approx (k * eps) v x" "\<bar>x\<bar> \<le> B" "0 \<le> k" "k \<le> 10 ^ 12" "B \<le> 1000"
  shows "approx ((k + B + 1) * eps) (rnd v) x"
proof -
  have k: "k * eps \<le> 10 ^ 12 * (1 / 10 ^ 15)"
    using assms(3,4) eps_small eps_pos by (intro mult_mono) simp_all
  have B0: "0 \<le> B" using assms(2) by linarith
  have 1: "\<bar>x\<bar> + k * eps \<le> B + 1" using assms(2) k by simp
  have 2: "1 / 2 ^ 20 \<le> B + 1" using B0 by (simp add: field_simps)
  have 3: "B + 1 \<le> 2 ^ 20" using assms(5) by simp
  have "approx (k * eps + (B + 1) * eps) (rnd v) x" by (rule approx_rnd [OF assms(1) 1 2 3])
  then show ?thesis by (simp add: algebra_simps)
qed

lemma approx_multK:
  assumes "approx (k1 * eps) v x" "approx (k2 * eps) w y" "\<bar>x\<bar> \<le> Bx" "\<bar>y\<bar> \<le> By"
    "0 \<le> k1" "0 \<le> k2" "k2 \<le> 10 ^ 12"
  shows "approx ((k1 * (By + 1) + Bx * k2) * eps) (v * w) (x * y)"
proof -
  have k: "k2 * eps \<le> 10 ^ 12 * (1 / 10 ^ 15)"
    using assms(6,7) eps_small eps_pos by (intro mult_mono) simp_all
  have 1: "\<bar>y\<bar> + k2 * eps \<le> By + 1" using assms(4) k by simp
  have "approx (k1 * eps * (By + 1) + Bx * (k2 * eps)) (v * w) (x * y)"
    by (rule approx_mult [OF assms(1,2,3) 1])
  then show ?thesis by (simp add: algebra_simps)
qed

lemma approx_divK:
  assumes "approx (k1 * eps) v x" "approx (k2 * eps) w y" "0 < c" "c \<le> y"
    "\<bar>x\<bar> \<le> R * y" "0 \<le> R" "0 \<le> k2" "k2 \<le> 10 ^ 12 * c"
  shows "approx ((2 * (k1 + R * k2) / c) * eps) (v / w) (x / y)"
proof -
  have "k2 * eps \<le> (10 ^ 12 * c) * (1 / 10 ^ 15)"
    using assms(3,7,8) eps_small eps_pos by (intro mult_mono) simp_all
  then have 1: "2 * (k2 * eps) \<le> c" using assms(3) by simp
  have "approx (2 * (k1 * eps + R * (k2 * eps)) / c) (v / w) (x / y)"
    by (rule approx_div [OF assms(1,2,3,4) 1 assms(5,6)])
  then show ?thesis by (simp add: algebra_simps add_divide_distrib)
qed

lemma approx_exactK: "approx (0 * eps) (Fin x) x"
  by (simp add: approx_def)

lemma approx_monoK: "approx (k * eps) v x \<Longrightarrow> k \<le> k' \<Longrightarrow> approx (k' * eps) v x"
proof -
  assume a: "approx (k * eps) v x" and "k \<le> k'"
  then have "k * eps \<le> k' * eps" using eps_pos by (simp add: mult_right_mono)
  with a show ?thesis by (rule approx_mono)
qed

lemma approx_addK:
  "approx (k1 * eps) v x \<Longrightarrow> approx (k2 * eps) w y \<Longrightarrow> approx ((k1 + k2) * eps) (v + w) (x + y)"
  using approx_add [of "k1 * eps" v x "k2 * eps" w y] by (simp add: algebra_simps)

lemma approx_diffK:
  "approx (k1 * eps) v x \<Longrightarrow> approx (k2 * eps) w y \<Longrightarrow> approx ((k1 + k2) * eps) (v - w) (x - y)"
  using approx_diff [of "k1 * eps" v x "k2 * eps" w y] by (simp add: algebra_simps)

subsection \<open>The three conversions on integers\<close>

text \<open>
  \<open>HSBToHSL\<close>, on a hue in degrees and a saturation and a brightness in percent, each
  divided as \<open>setColor\<close> divides them.
\<close>

lemma to_double_minus_one: "to_double (- 1) = Fin (- 1)"
  using to_double_scaled_int [of 0 "- 1" 0] by simp

lemma percent:
  fixes k :: int
  assumes "0 \<le> k" "k \<le> 100"
  obtains y where "rnd (Fin (of_int k) / Fin 100) = Fin y" "approx (2 * eps) (Fin y) (of_int k / 100)"
    "k = 0 \<Longrightarrow> y = 0" "k = 100 \<Longrightarrow> y = 1" "0 < k \<Longrightarrow> 0 < y" "k < 100 \<Longrightarrow> y < 1"
proof -
  have d: "Fin (of_int k) / Fin 100 = Fin (of_int k / 100)" by simp
  have "approx ((0 + 1 + 1) * eps) (rnd (Fin (of_int k / 100))) (of_int k / 100)"
    by (rule approx_rndK [OF approx_exactK]) (use assms in simp_all)
  then obtain y where y: "rnd (Fin (of_int k / 100)) = Fin y" "\<bar>y - of_int k / 100\<bar> \<le> 2 * eps"
    by (auto simp add: approx_def)
  have e: "2 * eps < 1 / 100" using eps_small by simp
  have 1: "y = 0" if "k = 0" using y(1) that by simp
  have 2: "y = 1" if "k = 100" using y(1) that by (simp add: to_double_values)
  have 3: "0 < y" if "0 < k"
  proof -
    have "1 \<le> k" using that by simp
    then have "1 \<le> real_of_int k" by linarith
    then show ?thesis using y(2) e unfolding abs_le_iff by linarith
  qed
  have 4: "y < 1" if "k < 100"
  proof -
    have "k \<le> 99" using that by simp
    then have "real_of_int k \<le> 99" by linarith
    then show ?thesis using y(2) e unfolding abs_le_iff by linarith
  qed
  show ?thesis
    by (rule that [of y]) (use y d 1 2 3 4 in \<open>simp_all add: approx_def\<close>)
qed

lemma degrees:
  fixes h :: int
  assumes "- 60 \<le> h" "h \<le> 300"
  obtains y where "rnd (Fin (of_int h) / Fin 60) = Fin y"
    "Math_round (rnd (Fin y * Fin 60)) = Fin (of_int h)"
    "\<exists>z. rnd (Fin y * Fin 60) = Fin z"
proof -
  have d: "Fin (of_int h) / Fin 60 = Fin (of_int h / 60)" by simp
  have b: "\<bar>real_of_int h / 60\<bar> \<le> 5" using assms by (simp add: abs_le_iff)
  have "approx ((0 + 5 + 1) * eps) (rnd (Fin (of_int h / 60))) (of_int h / 60)"
    by (rule approx_rndK [OF approx_exactK b]) simp_all
  then obtain y where y: "rnd (Fin (of_int h / 60)) = Fin y" "approx (6 * eps) (Fin y) (of_int h / 60)"
    by (auto simp add: approx_def)
  have "approx ((6 * (60 + 1) + 5 * 0) * eps) (Fin y * Fin 60) (of_int h / 60 * 60)"
    by (rule approx_multK [OF y(2) approx_exactK b]) simp_all
  then have m: "approx (366 * eps) (Fin y * Fin 60) (real_of_int h / real_of_int 1)" by simp
  have h: "\<bar>real_of_int h / real_of_int 1\<bar> \<le> 300" using assms by (simp add: abs_le_iff)
  have "approx ((366 + 300 + 1) * eps) (rnd (Fin y * Fin 60)) (real_of_int h / real_of_int 1)"
    by (rule approx_rndK [OF m h]) simp_all
  then have r: "approx (667 * eps) (rnd (Fin y * Fin 60)) (real_of_int h / real_of_int 1)" by simp
  from round_cand [OF r] obtain n where n: "Math_round (rnd (Fin y * Fin 60)) = Fin (of_int n)"
    "n \<in> set (cand h 1)" by auto
  have "cand h 1 = [h]" by (simp add: cand_def Let_def)
  then have "n = h" using n(2) by simp
  moreover have "\<exists>z. rnd (Fin y * Fin 60) = Fin z" using r by (auto simp add: approx_def)
  ultimately show ?thesis using that [of y] y(1) d n(1) by simp
qed

lemma prod_bound:
  fixes a b :: real
  assumes "0 \<le> a" "a \<le> A" "0 \<le> b" "b \<le> B"
  shows "0 \<le> a * b" "a * b \<le> A * B" "\<bar>a * b\<bar> \<le> A * B"
proof -
  show 1: "0 \<le> a * b" using assms by simp
  show 2: "a * b \<le> A * B" using assms by (intro mult_mono) simp_all
  show "\<bar>a * b\<bar> \<le> A * B" using 1 2 by simp
qed

lemma hop2_denominator:
  fixes s2 b2 :: int
  assumes "0 \<le> s2" "s2 \<le> 100" "1 \<le> b2" "b2 \<le> 100" "\<not> (s2 = 0 \<and> b2 = 100)"
  defines "T \<equiv> b2 * (200 - s2)"
  defines "E \<equiv> 10000 - \<bar>T - 10000\<bar>"
  shows "100 \<le> E" "E \<le> 10000" "b2 * s2 \<le> E" "0 \<le> T" "T \<le> 20000"
proof -
  have t1: "1 * 100 \<le> b2 * (200 - s2)" using assms(2,3) by (intro mult_mono) simp_all
  have t2: "b2 * (200 - s2) \<le> 19900"
  proof (cases "b2 = 100")
    case True
    then have "1 \<le> s2" using assms(1,5) by simp
    then show ?thesis using True by simp
  next
    case False
    then have "b2 \<le> 99" using assms(4) by simp
    then have "b2 * (200 - s2) \<le> 99 * 200" using assms(1,2,3) by (intro mult_mono) simp_all
    then show ?thesis by simp
  qed
  show "100 \<le> E" "E \<le> 10000" "0 \<le> T" "T \<le> 20000"
    using t1 t2 by (simp_all add: E_def T_def abs_if)
  have a: "b2 * s2 \<le> b2 * 100" using assms(2,3) by (intro mult_left_mono) simp_all
  have b: "b2 * s2 \<le> 100 * s2" using assms(1,4) by (intro mult_right_mono) simp_all
  have "0 \<le> b2 * s2" using assms(1,3) by simp
  then show "b2 * s2 \<le> E" using a b assms(4) by (simp add: E_def T_def abs_if algebra_simps)
qed

lemma HSBToHSL_binary64_int:
  fixes h s2 b2 :: int
  assumes h: "- 60 \<le> h" "h \<le> 300" and s2: "0 \<le> s2" "s2 \<le> 100" and b2: "0 \<le> b2" "b2 \<le> 100"
  shows "\<exists>hh s3 l3.
      HSBToHSL_binary64 (rnd (Fin (of_int h) / Fin 60)) (rnd (Fin (of_int s2) / Fin 100))
        (rnd (Fin (of_int b2) / Fin 100))
      = \<lparr>hsl_h = Fin hh, hsl_s = Fin (of_int s3), hsl_l = Fin (of_int l3)\<rparr>
      \<and> (s3, l3) \<in> set (hop2_cand s2 b2) \<and> (hh = of_int h \<or> s3 = 0)"
proof -
  obtain Hh where H: "rnd (Fin (of_int h) / Fin 60) = Fin Hh"
    and Hr: "Math_round (rnd (Fin Hh * Fin 60)) = Fin (of_int h)"
    and Hf: "\<exists>z. rnd (Fin Hh * Fin 60) = Fin z"
    by (rule degrees [OF h]) auto
  obtain Sh where S: "rnd (Fin (of_int s2) / Fin 100) = Fin Sh"
    and aS: "approx (2 * eps) (Fin Sh) (of_int s2 / 100)"
    and S0: "s2 = 0 \<Longrightarrow> Sh = 0" and Sp: "0 < s2 \<Longrightarrow> 0 < Sh"
    by (rule percent [OF s2]) auto
  obtain Bh where B: "rnd (Fin (of_int b2) / Fin 100) = Fin Bh"
    and aB: "approx (2 * eps) (Fin Bh) (of_int b2 / 100)"
    and B0: "b2 = 0 \<Longrightarrow> Bh = 0" and B1: "b2 = 100 \<Longrightarrow> Bh = 1"
    and Bp: "0 < b2 \<Longrightarrow> 0 < Bh" and Bl: "b2 < 100 \<Longrightarrow> Bh < 1"
    by (rule percent [OF b2]) auto
  obtain z where z: "rnd (Fin Hh * Fin 60) = Fin z" using Hf by blast
  define Sx where "Sx = real_of_int s2 / 100"
  define Bx where "Bx = real_of_int b2 / 100"
  have Sx: "0 \<le> Sx" "Sx \<le> 1" using s2 by (simp_all add: Sx_def)
  have Bx: "0 \<le> Bx" "Bx \<le> 1" using b2 by (simp_all add: Bx_def)
  note aS = aS [folded Sx_def] and aB = aB [folded Bx_def]
  have "approx ((0 + 2) * eps) (Fin 2 - Fin Sh) (2 - Sx)"
    by (rule approx_diffK [OF approx_exactK aS])
  then have "approx ((0 + 2 + 2 + 1) * eps) (rnd (Fin 2 - Fin Sh)) (2 - Sx)"
    by (rule approx_rndK) (use Sx in simp_all)
  then have a2: "approx (5 * eps) (rnd (Fin 2 - Fin Sh)) (2 - Sx)" by simp
  show ?thesis
  proof (cases "b2 = 0")
    case True
    obtain t where t: "rnd (Fin 2 - Fin Sh) = Fin t" using a2 by (auto simp add: approx_def)
    have "HSBToHSL_binary64 (Fin Hh) (Fin Sh) (Fin Bh)
        = \<lparr>hsl_h = Fin z, hsl_s = Fin (of_int 0), hsl_l = Fin (of_int 0)\<rparr>"
      unfolding HSBToHSL_binary64_def Let_def t B0 [OF True]
      by (simp add: to_double_minus_one z [simplified])
    moreover have "(0, 0) \<in> set (hop2_cand s2 b2)" using True by (simp add: hop2_cand_def)
    ultimately show ?thesis unfolding H S B by blast
  next
    case bpos: False
    show ?thesis
    proof (cases "s2 = 0 \<and> b2 = 100")
      case True
      have "HSBToHSL_binary64 (Fin Hh) (Fin Sh) (Fin Bh)
          = \<lparr>hsl_h = Fin z, hsl_s = Fin (of_int 0), hsl_l = Fin (of_int 100)\<rparr>"
        unfolding HSBToHSL_binary64_def Let_def using True S0 B1 by (simp add: z [simplified])
      moreover have "(0, 100) \<in> set (hop2_cand s2 b2)" using True by (simp add: hop2_cand_def)
      ultimately show ?thesis unfolding H S B by blast
    next
      case False
      define T where "T = b2 * (200 - s2)"
      define E where "E = 10000 - \<bar>T - 10000\<bar>"
      have b1: "1 \<le> b2" using bpos b2 by simp
      note den = hop2_denominator [OF s2 b1 b2(2) False, folded T_def, folded E_def]
      define lx where "lx = 1 / 2 * Bx * (2 - Sx)"
      have lT: "lx = real_of_int T / 20000" by (simp add: lx_def Bx_def Sx_def T_def field_simps)
      have lx: "0 \<le> lx" "lx \<le> 1" using den(4,5) by (simp_all add: lT)
      define dx where "dx = 1 - \<bar>2 * lx - 1\<bar>"
      have dE: "dx = real_of_int E / 10000"
        by (simp add: dx_def lT E_def abs_if field_simps)
      have dx: "1 / 100 \<le> dx" "dx \<le> 1" using den(1,2) by (simp_all add: dE)
      have "real_of_int (b2 * s2) \<le> real_of_int E" using den(3) by (simp only: of_int_le_iff)
      then have BS: "Bx * Sx \<le> dx" by (simp add: Bx_def Sx_def dE field_simps)
      have BS0: "0 \<le> Bx * Sx" using Bx Sx by simp
      txt \<open>the lightness\<close>
      have "approx ((0 * (1 + 1) + 1 / 2 * 2) * eps) (Fin (1 / 2) * Fin Bh) (1 / 2 * Bx)"
        by (rule approx_multK [OF approx_exactK aB]) (use Bx in simp_all)
      then have "approx ((0 * (1 + 1) + 1 / 2 * 2 + 1 / 2 + 1) * eps) (rnd (Fin (1 / 2) * Fin Bh)) (1 / 2 * Bx)"
        by (rule approx_rndK) (use Bx in simp_all)
      then have a1: "approx (5 / 2 * eps) (rnd (Fin (1 / 2) * Fin Bh)) (1 / 2 * Bx)" by simp
      have "approx ((5 / 2 * (2 + 1) + 1 / 2 * 5) * eps)
          (rnd (Fin (1 / 2) * Fin Bh) * rnd (Fin 2 - Fin Sh)) (1 / 2 * Bx * (2 - Sx))"
        by (rule approx_multK [OF a1 a2]) (use Bx Sx in simp_all)
      then have "approx ((5 / 2 * (2 + 1) + 1 / 2 * 5 + 1 + 1) * eps)
          (rnd (rnd (Fin (1 / 2) * Fin Bh) * rnd (Fin 2 - Fin Sh))) lx"
        unfolding lx_def [symmetric] by (rule approx_rndK) (use lx in simp_all)
      then have a3: "approx (12 * eps) (rnd (rnd (Fin (1 / 2) * Fin Bh) * rnd (Fin 2 - Fin Sh))) lx"
        by simp
      then obtain lh where lh: "rnd (rnd (Fin (1 / 2) * Fin Bh) * rnd (Fin 2 - Fin Sh)) = Fin lh"
        by (auto simp add: approx_def)
      note a3 = a3 [unfolded lh]
      have "approx ((12 * (100 + 1) + 1 * 0) * eps) (Fin lh * Fin 100) (lx * 100)"
        by (rule approx_multK [OF a3 approx_exactK]) (use lx in simp_all)
      then have "approx ((12 * (100 + 1) + 1 * 0 + 100 + 1) * eps) (rnd (Fin lh * Fin 100)) (lx * 100)"
        by (rule approx_rndK) (use lx in simp_all)
      then have a4: "approx (1313 * eps) (rnd (Fin lh * Fin 100)) (real_of_int T / real_of_int 200)"
        by (simp add: lT)
      from round_cand [OF a4] obtain l3 where l3: "Math_round (rnd (Fin lh * Fin 100)) = Fin (of_int l3)"
        "l3 \<in> set (cand T 200)" by auto
      txt \<open>the denominator\<close>
      have "approx ((0 * (1 + 1) + 2 * 12) * eps) (Fin 2 * Fin lh) (2 * lx)"
        by (rule approx_multK [OF approx_exactK a3]) (use lx in simp_all)
      then have "approx ((0 * (1 + 1) + 2 * 12 + 2 + 1) * eps) (rnd (Fin 2 * Fin lh)) (2 * lx)"
        by (rule approx_rndK) (use lx in simp_all)
      then have "approx ((0 * (1 + 1) + 2 * 12 + 2 + 1 + 0) * eps) (rnd (Fin 2 * Fin lh) - Fin 1) (2 * lx - 1)"
        by (rule approx_diffK [OF _ approx_exactK])
      then have "approx ((0 * (1 + 1) + 2 * 12 + 2 + 1 + 0 + 1 + 1) * eps)
          (rnd (rnd (Fin 2 * Fin lh) - Fin 1)) (2 * lx - 1)"
        by (rule approx_rndK) (use lx in \<open>simp_all add: abs_le_iff\<close>)
      then have "approx (29 * eps) \<bar>rnd (rnd (Fin 2 * Fin lh) - Fin 1)\<bar> \<bar>2 * lx - 1\<bar>"
        using approx_abs by simp
      then have "approx ((0 + 29) * eps) (Fin 1 - \<bar>rnd (rnd (Fin 2 * Fin lh) - Fin 1)\<bar>) dx"
        unfolding dx_def by (rule approx_diffK [OF approx_exactK])
      then have "approx ((0 + 29 + 1 + 1) * eps) (rnd (Fin 1 - \<bar>rnd (rnd (Fin 2 * Fin lh) - Fin 1)\<bar>)) dx"
        by (rule approx_rndK) (use dx in simp_all)
      then have a8: "approx (31 * eps) (rnd (Fin 1 - \<bar>rnd (rnd (Fin 2 * Fin lh) - Fin 1)\<bar>)) dx"
        by simp
      txt \<open>the saturation\<close>
      have "approx ((2 * (1 + 1) + 1 * 2) * eps) (Fin Bh * Fin Sh) (Bx * Sx)"
        by (rule approx_multK [OF aB aS]) (use Bx Sx in simp_all)
      then have "approx ((2 * (1 + 1) + 1 * 2 + 1 + 1) * eps) (rnd (Fin Bh * Fin Sh)) (Bx * Sx)"
        by (rule approx_rndK) (use BS BS0 dx in simp_all)
      then have a9: "approx (8 * eps) (rnd (Fin Bh * Fin Sh)) (Bx * Sx)" by simp
      have "approx ((2 * (8 + 1 * 31) / (1 / 100)) * eps)
          (rnd (Fin Bh * Fin Sh) / rnd (Fin 1 - \<bar>rnd (rnd (Fin 2 * Fin lh) - Fin 1)\<bar>)) (Bx * Sx / dx)"
        by (rule approx_divK [OF a9 a8 _ dx(1)]) (use BS BS0 in simp_all)
      then have a10: "approx (7800 * eps)
          (rnd (Fin Bh * Fin Sh) / rnd (Fin 1 - \<bar>rnd (rnd (Fin 2 * Fin lh) - Fin 1)\<bar>)) (Bx * Sx / dx)"
        by simp
      define sx where "sx = Bx * Sx / dx"
      have q: "0 \<le> sx" "sx \<le> 1" using BS BS0 dx by (simp_all add: sx_def)
      note a10 = a10 [folded sx_def]
      have "approx ((7800 + 1 + 1) * eps)
          (rnd (rnd (Fin Bh * Fin Sh) / rnd (Fin 1 - \<bar>rnd (rnd (Fin 2 * Fin lh) - Fin 1)\<bar>))) sx"
        by (rule approx_rndK [OF a10]) (use q in simp_all)
      then obtain sh where
        sh: "rnd (rnd (Fin Bh * Fin Sh) / rnd (Fin 1 - \<bar>rnd (rnd (Fin 2 * Fin lh) - Fin 1)\<bar>)) = Fin sh"
        and a11: "approx (7802 * eps) (Fin sh) sx"
        by (auto simp add: approx_def)
      have "approx ((7802 * (100 + 1) + 1 * 0) * eps) (Fin sh * Fin 100) (sx * 100)"
        by (rule approx_multK [OF a11 approx_exactK]) (use q in simp_all)
      then have "approx ((7802 * (100 + 1) + 1 * 0 + 100 + 1) * eps) (rnd (Fin sh * Fin 100))
          (sx * 100)"
        by (rule approx_rndK) (use q in simp_all)
      moreover have "sx * 100 = real_of_int (100 * b2 * s2) / real_of_int E"
        using den(1) by (simp add: sx_def Bx_def Sx_def dE field_simps)
      ultimately have a12: "approx (788103 * eps) (rnd (Fin sh * Fin 100))
          (real_of_int (100 * b2 * s2) / real_of_int E)"
        by simp
      have "0 < E" using den(1) by simp
      moreover have "2 * 788103 * real_of_int E \<le> 10 ^ 14" using den(2) by simp
      ultimately obtain s3 where s3: "Math_round (rnd (Fin sh * Fin 100)) = Fin (of_int s3)"
        "s3 \<in> set (cand (100 * b2 * s2) E)"
        using round_cand [OF a12] by auto
      txt \<open>the guards\<close>
      have g1: "\<not> (Sh = 0 \<and> Bh = 1)"
      proof (cases "b2 = 100")
        case True
        then have "0 < s2" using False s2 by simp
        then show ?thesis using Sp by simp
      next
        case False
        then have "b2 < 100" using b2 by simp
        then show ?thesis using Bl by simp
      qed
      have g2: "Bh \<noteq> 0" using Bp b1 by simp
      have "HSBToHSL_binary64 (Fin Hh) (Fin Sh) (Fin Bh)
          = \<lparr>hsl_h = Fin (of_int h), hsl_s = Fin (of_int s3), hsl_l = Fin (of_int l3)\<rparr>"
        unfolding HSBToHSL_binary64_def Let_def lh sh s3(1) l3(1) Hr using g1 g2
        by auto
      moreover have "(s3, l3) \<in> set (hop2_cand s2 b2)"
        using False bpos s3(2) l3(2) by (auto simp add: hop2_cand_def T_def E_def Let_def)
      ultimately show ?thesis unfolding H S B by blast
    qed
  qed
qed

text \<open>\<open>HSLToHSB\<close>, on a hue in degrees and a saturation and a lightness in percent.\<close>

lemma hop1_denominator:
  fixes s1 l1 :: int
  assumes "0 \<le> s1" "s1 \<le> 100" "1 \<le> l1" "l1 \<le> 100"
  defines "w1 \<equiv> 100 - \<bar>2 * l1 - 100\<bar>"
  defines "D \<equiv> 200 * l1 + s1 * w1"
  shows "0 \<le> w1" "w1 \<le> 100" "200 \<le> D" "D \<le> 20000" "2 * (s1 * w1) \<le> D" "0 \<le> s1 * w1"
proof -
  show w: "0 \<le> w1" "w1 \<le> 100" using assms(3,4) by (simp_all add: w1_def abs_if)
  have w2: "w1 \<le> 2 * l1" "w1 \<le> 200 - 2 * l1" using assms(3,4) by (simp_all add: w1_def abs_if)
  show p: "0 \<le> s1 * w1" using assms(1) w by simp
  have a: "s1 * w1 \<le> 100 * w1" using assms(2) w by (intro mult_right_mono) simp_all
  show "200 \<le> D" using p assms(3) by (simp add: D_def)
  show "D \<le> 20000" using a w2 by (simp add: D_def)
  show "2 * (s1 * w1) \<le> D" using a w2 by (simp add: D_def)
qed

lemma HSLToHSB_binary64_int:
  fixes h s1 l1 :: int
  assumes h: "- 60 \<le> h" "h \<le> 300" and s1: "0 \<le> s1" "s1 \<le> 100" and l1: "0 \<le> l1" "l1 \<le> 100"
  shows "\<exists>s2 b2.
      HSLToHSB_binary64 (rnd (Fin (of_int h) / Fin 60)) (rnd (Fin (of_int s1) / Fin 100))
        (rnd (Fin (of_int l1) / Fin 100))
      = \<lparr>hsb_h = Fin (of_int (if l1 = 0 then 0 else h)), hsb_s = Fin (of_int s2),
         hsb_b = Fin (of_int b2)\<rparr>
      \<and> (s2, b2) \<in> set (hop1_cand s1 l1)"
proof -
  obtain Hh where H: "rnd (Fin (of_int h) / Fin 60) = Fin Hh"
    and Hr: "Math_round (rnd (Fin Hh * Fin 60)) = Fin (of_int h)"
    by (rule degrees [OF h]) auto
  obtain Sh where S: "rnd (Fin (of_int s1) / Fin 100) = Fin Sh"
    and aS: "approx (2 * eps) (Fin Sh) (of_int s1 / 100)"
    by (rule percent [OF s1]) auto
  obtain Lh where L: "rnd (Fin (of_int l1) / Fin 100) = Fin Lh"
    and aL: "approx (2 * eps) (Fin Lh) (of_int l1 / 100)"
    and L0: "l1 = 0 \<Longrightarrow> Lh = 0"
    by (rule percent [OF l1]) auto
  define Sx where "Sx = real_of_int s1 / 100"
  define Lx where "Lx = real_of_int l1 / 100"
  have Sx: "0 \<le> Sx" "Sx \<le> 1" using s1 by (simp_all add: Sx_def)
  have Lx: "0 \<le> Lx" "Lx \<le> 1" using l1 by (simp_all add: Lx_def)
  note aS = aS [folded Sx_def] and aL = aL [folded Lx_def]
  show ?thesis
  proof (cases "l1 = 0")
    case True
    have "HSLToHSB_binary64 (Fin Hh) (Fin Sh) (Fin Lh)
        = \<lparr>hsb_h = Fin (of_int 0), hsb_s = Fin (of_int 0), hsb_b = Fin (of_int 0)\<rparr>"
      unfolding HSLToHSB_binary64_def Let_def L0 [OF True]
      by (simp add: to_double_minus_one)
    moreover have "(0, 0) \<in> set (hop1_cand s1 l1)" using True by (simp add: hop1_cand_def)
    ultimately show ?thesis unfolding H S L using True by auto
  next
    case False
    then have l1': "1 \<le> l1" using l1 by simp
    define w1 where "w1 = 100 - \<bar>2 * l1 - 100\<bar>"
    define D where "D = 200 * l1 + s1 * w1"
    note den = hop1_denominator [OF s1 l1' l1(2), folded w1_def, folded D_def]
    define wx where "wx = 1 - \<bar>2 * Lx - 1\<bar>"
    have ww: "wx = real_of_int w1 / 100" by (simp add: wx_def Lx_def w1_def abs_if field_simps)
    have wx: "0 \<le> wx" "wx \<le> 1" using den(1,2) by (simp_all add: ww)
    define cx where "cx = Sx * wx"
    have cx: "0 \<le> cx" "cx \<le> 1" using prod_bound [OF Sx wx] by (simp_all add: cx_def)
    have cD: "cx = real_of_int (s1 * w1) / 10000" by (simp add: cx_def Sx_def ww)
    define bx where "bx = (2 * Lx + cx) / 2"
    have bD: "bx = real_of_int D / 20000" by (simp add: bx_def cD Lx_def D_def field_simps)
    have bx: "1 / 100 \<le> bx" "bx \<le> 1" using den(3,4) by (simp_all add: bD)
    have "real_of_int (2 * (s1 * w1)) \<le> real_of_int D" using den(5) by (simp only: of_int_le_iff)
    then have cb: "cx \<le> bx" by (simp add: cD bD)
    have bL: "bx - Lx = cx / 2" by (simp add: bx_def field_simps)
    txt \<open>the brightness\<close>
    have "approx ((0 * (1 + 1) + 2 * 2) * eps) (Fin 2 * Fin Lh) (2 * Lx)"
      by (rule approx_multK [OF approx_exactK aL]) (use Lx in simp_all)
    then have "approx ((0 * (1 + 1) + 2 * 2 + 2 + 1) * eps) (rnd (Fin 2 * Fin Lh)) (2 * Lx)"
      by (rule approx_rndK) (use Lx in simp_all)
    then obtain t1 where t1: "rnd (Fin 2 * Fin Lh) = Fin t1" and a1: "approx (7 * eps) (Fin t1) (2 * Lx)"
      by (auto simp add: approx_def)
    have "approx ((7 + 0) * eps) (Fin t1 - Fin 1) (2 * Lx - 1)"
      by (rule approx_diffK [OF a1 approx_exactK])
    then have "approx ((7 + 0 + 1 + 1) * eps) (rnd (Fin t1 - Fin 1)) (2 * Lx - 1)"
      by (rule approx_rndK) (use Lx in \<open>simp_all add: abs_le_iff\<close>)
    then have "approx (9 * eps) \<bar>rnd (Fin t1 - Fin 1)\<bar> \<bar>2 * Lx - 1\<bar>"
      using approx_abs by simp
    then have "approx ((0 + 9) * eps) (Fin 1 - \<bar>rnd (Fin t1 - Fin 1)\<bar>) wx"
      unfolding wx_def by (rule approx_diffK [OF approx_exactK])
    then have "approx ((0 + 9 + 1 + 1) * eps) (rnd (Fin 1 - \<bar>rnd (Fin t1 - Fin 1)\<bar>)) wx"
      by (rule approx_rndK) (use wx in simp_all)
    then have a2: "approx (11 * eps) (rnd (Fin 1 - \<bar>rnd (Fin t1 - Fin 1)\<bar>)) wx" by simp
    have "approx ((2 * (1 + 1) + 1 * 11) * eps) (Fin Sh * rnd (Fin 1 - \<bar>rnd (Fin t1 - Fin 1)\<bar>)) cx"
      unfolding cx_def by (rule approx_multK [OF aS a2]) (use Sx wx in simp_all)
    then have "approx ((2 * (1 + 1) + 1 * 11 + 1 + 1) * eps)
        (rnd (Fin Sh * rnd (Fin 1 - \<bar>rnd (Fin t1 - Fin 1)\<bar>))) cx"
      by (rule approx_rndK) (use cx in simp_all)
    then have a3: "approx (17 * eps) (rnd (Fin Sh * rnd (Fin 1 - \<bar>rnd (Fin t1 - Fin 1)\<bar>))) cx"
      by simp
    have "approx ((7 + 17) * eps)
        (Fin t1 + rnd (Fin Sh * rnd (Fin 1 - \<bar>rnd (Fin t1 - Fin 1)\<bar>))) (2 * Lx + cx)"
      by (rule approx_addK [OF a1 a3])
    then have "approx ((7 + 17 + 3 + 1) * eps)
        (rnd (Fin t1 + rnd (Fin Sh * rnd (Fin 1 - \<bar>rnd (Fin t1 - Fin 1)\<bar>)))) (2 * Lx + cx)"
      by (rule approx_rndK) (use Lx cx in simp_all)
    then have a4: "approx (28 * eps)
        (rnd (Fin t1 + rnd (Fin Sh * rnd (Fin 1 - \<bar>rnd (Fin t1 - Fin 1)\<bar>)))) (2 * Lx + cx)"
      by simp
    have "approx ((2 * (28 + 3 / 2 * 0) / 2) * eps)
        (rnd (Fin t1 + rnd (Fin Sh * rnd (Fin 1 - \<bar>rnd (Fin t1 - Fin 1)\<bar>))) / Fin 2) ((2 * Lx + cx) / 2)"
      by (rule approx_divK [OF a4 approx_exactK]) (use Lx cx in simp_all)
    then have "approx ((2 * (28 + 3 / 2 * 0) / 2 + 1 + 1) * eps)
        (rnd (rnd (Fin t1 + rnd (Fin Sh * rnd (Fin 1 - \<bar>rnd (Fin t1 - Fin 1)\<bar>))) / Fin 2)) bx"
      unfolding bx_def [symmetric] by (rule approx_rndK) (use bx in simp_all)
    then obtain bh where
      bh: "rnd (rnd (Fin t1 + rnd (Fin Sh * rnd (Fin 1 - \<bar>rnd (Fin t1 - Fin 1)\<bar>))) / Fin 2) = Fin bh"
      and ab: "approx (30 * eps) (Fin bh) bx"
      by (auto simp add: approx_def)
    have "30 * eps < 1 / 100" using eps_small by simp
    then have bh0: "bh \<noteq> 0" using ab bx(1) unfolding approx_def by auto
    have "approx ((30 * (100 + 1) + 1 * 0) * eps) (Fin bh * Fin 100) (bx * 100)"
      by (rule approx_multK [OF ab approx_exactK]) (use bx in simp_all)
    then have "approx ((30 * (100 + 1) + 1 * 0 + 100 + 1) * eps) (rnd (Fin bh * Fin 100)) (bx * 100)"
      by (rule approx_rndK) (use bx in simp_all)
    then have a5: "approx (3131 * eps) (rnd (Fin bh * Fin 100)) (real_of_int D / real_of_int 200)"
      by (simp add: bD)
    from round_cand [OF a5] obtain b2 where b2: "Math_round (rnd (Fin bh * Fin 100)) = Fin (of_int b2)"
      "b2 \<in> set (cand D 200)" by auto
    txt \<open>the saturation\<close>
    have "approx ((30 + 2) * eps) (Fin bh - Fin Lh) (bx - Lx)"
      by (rule approx_diffK [OF ab aL])
    then have "approx ((30 + 2 + 1 + 1) * eps) (rnd (Fin bh - Fin Lh)) (cx / 2)"
      unfolding bL by (rule approx_rndK) (use cx in simp_all)
    then have a6: "approx (34 * eps) (rnd (Fin bh - Fin Lh)) (cx / 2)" by simp
    have c2: "2 * (cx / 2) = cx" by simp
    have "approx ((0 * (1 + 1) + 2 * 34) * eps) (Fin 2 * rnd (Fin bh - Fin Lh)) (2 * (cx / 2))"
      by (rule approx_multK [OF approx_exactK a6]) (use cx in simp_all)
    then have "approx ((0 * (1 + 1) + 2 * 34 + 1 + 1) * eps) (rnd (Fin 2 * rnd (Fin bh - Fin Lh))) cx"
      unfolding c2 by (rule approx_rndK) (use cx in simp_all)
    then have a7: "approx (70 * eps) (rnd (Fin 2 * rnd (Fin bh - Fin Lh))) cx" by simp
    have "approx ((2 * (70 + 1 * 30) / (1 / 100)) * eps)
        (rnd (Fin 2 * rnd (Fin bh - Fin Lh)) / Fin bh) (cx / bx)"
      by (rule approx_divK [OF a7 ab _ bx(1)]) (use cx cb in simp_all)
    then have a8: "approx (20000 * eps) (rnd (Fin 2 * rnd (Fin bh - Fin Lh)) / Fin bh) (cx / bx)"
      by simp
    define sx where "sx = cx / bx"
    have sx: "0 \<le> sx" "sx \<le> 1" using cx cb bx by (simp_all add: sx_def)
    note a8 = a8 [folded sx_def]
    have "approx ((20000 + 1 + 1) * eps) (rnd (rnd (Fin 2 * rnd (Fin bh - Fin Lh)) / Fin bh)) sx"
      by (rule approx_rndK [OF a8]) (use sx in simp_all)
    then obtain sh where sh: "rnd (rnd (Fin 2 * rnd (Fin bh - Fin Lh)) / Fin bh) = Fin sh"
      and a9: "approx (20002 * eps) (Fin sh) sx"
      by (auto simp add: approx_def)
    have "approx ((20002 * (100 + 1) + 1 * 0) * eps) (Fin sh * Fin 100) (sx * 100)"
      by (rule approx_multK [OF a9 approx_exactK]) (use sx in simp_all)
    then have "approx ((20002 * (100 + 1) + 1 * 0 + 100 + 1) * eps) (rnd (Fin sh * Fin 100)) (sx * 100)"
      by (rule approx_rndK) (use sx in simp_all)
    moreover have "sx * 100 = real_of_int (200 * s1 * w1) / real_of_int D"
      using den(3) by (simp add: sx_def cD bD field_simps)
    ultimately have a10: "approx (2020303 * eps) (rnd (Fin sh * Fin 100))
        (real_of_int (200 * s1 * w1) / real_of_int D)"
      by simp
    have "0 < D" using den(3) by simp
    moreover have "2 * 2020303 * real_of_int D \<le> 10 ^ 14" using den(4) by simp
    ultimately obtain s2 where s2: "Math_round (rnd (Fin sh * Fin 100)) = Fin (of_int s2)"
      "s2 \<in> set (cand (200 * s1 * w1) D)"
      using round_cand [OF a10] by auto
    have "HSLToHSB_binary64 (Fin Hh) (Fin Sh) (Fin Lh)
        = \<lparr>hsb_h = Fin (of_int h), hsb_s = Fin (of_int s2), hsb_b = Fin (of_int b2)\<rparr>"
      unfolding HSLToHSB_binary64_def Let_def t1 bh sh s2(1) b2(1) Hr using bh0 by simp
    moreover have "(s2, b2) \<in> set (hop1_cand s1 l1)"
      using False s2(2) b2(2) by (simp add: hop1_cand_def w1_def D_def Let_def)
    ultimately show ?thesis unfolding H S L using False by auto
  qed
qed

text \<open>\<open>RGBtoHSL\<close>, on integer channels.\<close>

lemma unit255:
  "\<exists>f. \<forall>k. 0 \<le> k \<and> k \<le> 255 \<longrightarrow>
     rnd (Fin (of_int k) / Fin 255) = Fin (f k) \<and> approx (2 * eps) (Fin (f k)) (of_int k / 255)"
proof -
  have "\<exists>y. rnd (Fin (of_int k) / Fin 255) = Fin y \<and> approx (2 * eps) (Fin y) (of_int k / 255)"
    if "0 \<le> k \<and> k \<le> 255" for k :: int
  proof -
    have "approx ((0 + 1 + 1) * eps) (rnd (Fin (of_int k / 255))) (of_int k / 255)"
      by (rule approx_rndK [OF approx_exactK]) (use that in simp_all)
    then show ?thesis by (auto simp add: approx_def)
  qed
  then have "\<forall>k. \<exists>y. 0 \<le> k \<and> k \<le> 255 \<longrightarrow>
      rnd (Fin (of_int k) / Fin 255) = Fin y \<and> approx (2 * eps) (Fin y) (of_int k / 255)"
    by blast
  then show ?thesis by (rule choice)
qed

lemma hue_ratio:
  fixes N P dl :: int
  assumes aN: "approx (2 * eps) (Fin nh) (of_int N / 255)"
    and aP: "approx (2 * eps) (Fin ph) (of_int P / 255)"
    and ad: "approx (6 * eps) (Fin dh) (of_int dl / 255)"
    and dl: "1 \<le> dl" and NP: "\<bar>N - P\<bar> \<le> dl" "dl \<le> 255"
  shows "approx (6122 * eps) (rnd (rnd (Fin nh - Fin ph) / Fin dh))
    (real_of_int (N - P) / real_of_int dl)"
proof -
  define x where "x = real_of_int N / 255 - real_of_int P / 255"
  define y where "y = real_of_int dl / 255"
  have "\<bar>real_of_int (N - P)\<bar> \<le> real_of_int dl" using NP(1) by linarith
  then have xy: "\<bar>x\<bar> \<le> 1 * y" by (simp add: x_def y_def diff_divide_distrib [symmetric])
  have y: "1 / 255 \<le> y" "y \<le> 1" using dl NP(2) by (simp_all add: y_def)
  have x1: "\<bar>x\<bar> \<le> 1" using xy y by linarith
  have "approx ((2 + 2) * eps) (Fin nh - Fin ph) x"
    unfolding x_def by (rule approx_diffK [OF aN aP])
  then have "approx ((2 + 2 + 1 + 1) * eps) (rnd (Fin nh - Fin ph)) x"
    by (rule approx_rndK) (use x1 in simp_all)
  then have a: "approx (6 * eps) (rnd (Fin nh - Fin ph)) x" by simp
  have "approx ((2 * (6 + 1 * 6) / (1 / 255)) * eps) (rnd (Fin nh - Fin ph) / Fin dh) (x / y)"
    by (rule approx_divK [OF a ad [folded y_def] _ y(1) xy]) simp_all
  then have b: "approx (6120 * eps) (rnd (Fin nh - Fin ph) / Fin dh) (x / y)" by simp
  define u where "u = x / y"
  have u1: "\<bar>u\<bar> \<le> 1" using xy y by (simp add: u_def field_simps)
  have "approx ((6120 + 1 + 1) * eps) (rnd (rnd (Fin nh - Fin ph) / Fin dh)) u"
    by (rule approx_rndK [OF b [folded u_def] u1]) simp_all
  moreover have "u = real_of_int (N - P) / real_of_int dl"
    using dl by (simp add: u_def x_def y_def field_simps)
  ultimately show ?thesis by simp
qed

lemma hue_degrees:
  fixes N P dl base :: int
  assumes a: "approx (6122 * eps) (Fin uh) (real_of_int (N - P) / real_of_int dl)"
    and dl: "1 \<le> dl" "dl \<le> 255" and NP: "\<bar>N - P\<bar> \<le> dl" and base: "base = 0 \<or> base = 2 \<or> base = 4"
  shows "\<exists>k. \<bar>real_of_int k - 60 * (real_of_int (N - P) / real_of_int dl)\<bar> \<le> 1 / 2
    \<and> (base = 0 \<longrightarrow> Math_round (rnd (Fin uh * Fin 60)) = Fin (of_int k))
    \<and> (base \<noteq> 0 \<longrightarrow> Math_round (rnd (rnd (Fin (of_int base) + Fin uh) * Fin 60))
          = Fin (of_int (60 * base + k)))"
proof -
  define u where "u = real_of_int (N - P) / real_of_int dl"
  have "\<bar>real_of_int (N - P)\<bar> \<le> real_of_int dl" using NP by linarith
  then have u1: "\<bar>u\<bar> \<le> 1" using dl by (simp add: u_def field_simps)
  note a = a [folded u_def]
  have q: "0 < dl" "2 * 400000 * real_of_int dl \<le> 10 ^ 14" using dl by simp_all
  show ?thesis
  proof (cases "base = 0")
    case True
    have "approx ((6122 * (60 + 1) + 1 * 0) * eps) (Fin uh * Fin 60) (u * 60)"
      by (rule approx_multK [OF a approx_exactK u1]) simp_all
    then have "approx ((6122 * (60 + 1) + 1 * 0 + 60 + 1) * eps) (rnd (Fin uh * Fin 60)) (u * 60)"
      by (rule approx_rndK) (use u1 in simp_all)
    moreover have "u * 60 = real_of_int (60 * (N - P)) / real_of_int dl" by (simp add: u_def)
    ultimately have "approx (400000 * eps) (rnd (Fin uh * Fin 60))
        (real_of_int (60 * (N - P)) / real_of_int dl)"
      using approx_monoK by simp
    from round_cand [OF this q] obtain k where "Math_round (rnd (Fin uh * Fin 60)) = Fin (of_int k)"
      "\<bar>real_of_int k - real_of_int (60 * (N - P)) / real_of_int dl\<bar> \<le> 1 / 2" by auto
    then show ?thesis using True by (auto simp add: u_def)
  next
    case False
    define c where "c = real_of_int base"
    have c: "0 \<le> c" "c \<le> 4" using base by (auto simp add: c_def)
    have "approx ((0 + 6122) * eps) (Fin c + Fin uh) (c + u)"
      by (rule approx_addK [OF approx_exactK a])
    then have "approx ((0 + 6122 + 5 + 1) * eps) (rnd (Fin c + Fin uh)) (c + u)"
      by (rule approx_rndK) (use u1 c in simp_all)
    then have b: "approx (6128 * eps) (rnd (Fin c + Fin uh)) (c + u)" by simp
    have cu: "\<bar>c + u\<bar> \<le> 5" using u1 c by linarith
    have "approx ((6128 * (60 + 1) + 5 * 0) * eps) (rnd (Fin c + Fin uh) * Fin 60) ((c + u) * 60)"
      by (rule approx_multK [OF b approx_exactK cu]) simp_all
    then have "approx ((6128 * (60 + 1) + 5 * 0 + 300 + 1) * eps)
        (rnd (rnd (Fin c + Fin uh) * Fin 60)) ((c + u) * 60)"
      by (rule approx_rndK) (use cu in simp_all)
    moreover have "(c + u) * 60 = real_of_int (60 * base * dl + 60 * (N - P)) / real_of_int dl"
      using dl by (simp add: u_def c_def field_simps)
    ultimately have "approx (400000 * eps) (rnd (rnd (Fin c + Fin uh) * Fin 60))
        (real_of_int (60 * base * dl + 60 * (N - P)) / real_of_int dl)"
      using approx_monoK by simp
    from round_cand [OF this q] obtain n where
      n: "Math_round (rnd (rnd (Fin c + Fin uh) * Fin 60)) = Fin (of_int n)"
      "\<bar>real_of_int n - real_of_int (60 * base * dl + 60 * (N - P)) / real_of_int dl\<bar> \<le> 1 / 2"
      by auto
    have "real_of_int (60 * base * dl + 60 * (N - P)) / real_of_int dl
        = real_of_int (60 * base) + 60 * u"
      using dl by (simp add: u_def field_simps)
    then have "\<bar>real_of_int n - (real_of_int (60 * base) + 60 * u)\<bar> \<le> 1 / 2"
      using n(2) by (simp only:)
    moreover have "real_of_int (n - 60 * base) - 60 * u = real_of_int n - (real_of_int (60 * base) + 60 * u)"
      by simp
    ultimately have "\<bar>real_of_int (n - 60 * base) - 60 * u\<bar> \<le> 1 / 2" by (simp only:)
    note k = this
    have "Math_round (rnd (rnd (Fin (of_int base) + Fin uh) * Fin 60))
        = Fin (of_int (60 * base + (n - 60 * base)))"
      using n(1) by (simp add: c_def)
    then show ?thesis using False k unfolding u_def by blast
  qed
qed

lemma RGBtoHSL_binary64_int:
  fixes R G B :: int
  assumes rng: "0 \<le> R" "R \<le> 255" "0 \<le> G" "G \<le> 255" "0 \<le> B" "B \<le> 255"
  defines "cMax \<equiv> max R (max G B)" and "cMin \<equiv> min R (min G B)"
  defines "dl \<equiv> max R (max G B) - min R (min G B)"
  shows "\<exists>h1 s1 l1.
      RGBtoHSL_binary64 (Fin (of_int R)) (Fin (of_int G)) (Fin (of_int B))
        = \<lparr>hsl_h = Fin (of_int h1), hsl_s = Fin (of_int s1), hsl_l = Fin (of_int l1)\<rparr>
      \<and> l1 \<in> set (cand (100 * (cMax + cMin)) 510)
      \<and> s1 \<in> set (s1_cand (cMax + cMin) dl)
      \<and> (cMax = cMin \<and> h1 = 0
         \<or> cMax \<noteq> cMin \<and> cMax = R
            \<and> \<bar>real_of_int h1 - 60 * (real_of_int (G - B) / real_of_int dl)\<bar> \<le> 1 / 2
         \<or> cMax \<noteq> cMin \<and> cMax \<noteq> R \<and> cMax = G
            \<and> \<bar>real_of_int (h1 - 120) - 60 * (real_of_int (B - R) / real_of_int dl)\<bar> \<le> 1 / 2
         \<or> cMax \<noteq> cMin \<and> cMax \<noteq> R \<and> cMax \<noteq> G
            \<and> \<bar>real_of_int (h1 - 240) - 60 * (real_of_int (R - G) / real_of_int dl)\<bar> \<le> 1 / 2)"
proof -
  obtain f where f: "\<And>k. 0 \<le> k \<Longrightarrow> k \<le> 255 \<Longrightarrow> rnd (Fin (of_int k) / Fin 255) = Fin (f k)"
    and af: "\<And>k. 0 \<le> k \<Longrightarrow> k \<le> 255 \<Longrightarrow> approx (2 * eps) (Fin (f k)) (of_int k / 255)"
    using unit255 by blast
  have e4: "4 * eps < 1 / 255" using eps_small by simp
  have less: "f a < f b" if "0 \<le> a" "a < b" "b \<le> 255" for a b
  proof -
    have "a + 1 \<le> b" using that by simp
    then have "real_of_int a + 1 \<le> real_of_int b" by linarith
    then have "real_of_int a / 255 + 1 / 255 \<le> real_of_int b / 255" by simp
    moreover have "\<bar>f a - of_int a / 255\<bar> \<le> 2 * eps" "\<bar>f b - of_int b / 255\<bar> \<le> 2 * eps"
      using af [of a] af [of b] that by (simp_all add: approx_def)
    ultimately show ?thesis using e4 by linarith
  qed
  have le_iff: "f a \<le> f b \<longleftrightarrow> a \<le> b" if "0 \<le> a" "a \<le> 255" "0 \<le> b" "b \<le> 255" for a b
  proof (cases a b rule: linorder_cases)
    case less' : less
    then show ?thesis using less [of a b] that by simp
  next
    case equal
    then show ?thesis by simp
  next
    case greater
    then show ?thesis using less [of b a] that by simp
  qed
  have eq_iff: "f a = f b \<longleftrightarrow> a = b" if "0 \<le> a" "a \<le> 255" "0 \<le> b" "b \<le> 255" for a b
    using le_iff [of a b] le_iff [of b a] that by auto
  have M: "0 \<le> cMax" "cMax \<le> 255" and m: "0 \<le> cMin" "cMin \<le> 255"
    using rng by (simp_all add: cMax_def cMin_def)
  have mx: "max (f R) (max (f G) (f B)) = f cMax"
    unfolding cMax_def using rng le_iff by (simp add: max_def)
  have mn: "min (f R) (min (f G) (f B)) = f cMin"
    unfolding cMin_def using rng le_iff by (simp add: min_def)
  have mM: "cMin \<le> cMax" by (simp add: cMax_def cMin_def)
  have dl: "dl = cMax - cMin" by (simp add: dl_def cMax_def cMin_def)
  define Mx where "Mx = real_of_int cMax / 255"
  define mx' where "mx' = real_of_int cMin / 255"
  have Mx: "0 \<le> Mx" "Mx \<le> 1" using M by (simp_all add: Mx_def)
  have mx': "0 \<le> mx'" "mx' \<le> 1" "mx' \<le> Mx" using m mM by (simp_all add: mx'_def Mx_def)
  note aM = af [OF M, folded Mx_def] and am = af [OF m, folded mx'_def]
  txt \<open>the lightness\<close>
  have "approx ((2 + 2) * eps) (Fin (f cMax) + Fin (f cMin)) (Mx + mx')"
    by (rule approx_addK [OF aM am])
  then have "approx ((2 + 2 + 2 + 1) * eps) (rnd (Fin (f cMax) + Fin (f cMin))) (Mx + mx')"
    by (rule approx_rndK) (use Mx mx' in simp_all)
  then obtain sh where sh: "rnd (Fin (f cMax) + Fin (f cMin)) = Fin sh"
    and asum: "approx (7 * eps) (Fin sh) (Mx + mx')"
    by (auto simp add: approx_def)
  define Lx where "Lx = (Mx + mx') / 2"
  have Lx: "0 \<le> Lx" "Lx \<le> 1" using Mx mx' by (simp_all add: Lx_def)
  have "approx ((2 * (7 + 1 * 0) / 2) * eps) (Fin sh / Fin 2) ((Mx + mx') / 2)"
    by (rule approx_divK [OF asum approx_exactK]) (use Mx mx' in simp_all)
  then have "approx ((2 * (7 + 1 * 0) / 2 + 1 + 1) * eps) (rnd (Fin sh / Fin 2)) Lx"
    unfolding Lx_def [symmetric] by (rule approx_rndK) (use Lx in simp_all)
  then obtain Lh where Lh: "rnd (Fin sh / Fin 2) = Fin Lh" and aL: "approx (9 * eps) (Fin Lh) Lx"
    by (auto simp add: approx_def)
  have "approx ((9 * (100 + 1) + 1 * 0) * eps) (Fin Lh * Fin 100) (Lx * 100)"
    by (rule approx_multK [OF aL approx_exactK]) (use Lx in simp_all)
  then have "approx ((9 * (100 + 1) + 1 * 0 + 100 + 1) * eps) (rnd (Fin Lh * Fin 100)) (Lx * 100)"
    by (rule approx_rndK) (use Lx in simp_all)
  moreover have "Lx * 100 = real_of_int (100 * (cMax + cMin)) / real_of_int 510"
    by (simp add: Lx_def Mx_def mx'_def)
  ultimately have "approx (1010 * eps) (rnd (Fin Lh * Fin 100))
      (real_of_int (100 * (cMax + cMin)) / real_of_int 510)"
    by simp
  from round_cand [OF this] obtain l1 where l1: "Math_round (rnd (Fin Lh * Fin 100)) = Fin (of_int l1)"
    "l1 \<in> set (cand (100 * (cMax + cMin)) 510)" by auto
  txt \<open>the function, on the rounded channels\<close>
  have E0: "RGBtoHSL_binary64 (Fin (of_int R)) (Fin (of_int G)) (Fin (of_int B)) =
      \<lparr>hsl_h = Math_round (rnd ((if f cMax = f cMin then Fin 0
            else if f cMax = f R then rnd (rnd (Fin (f G) - Fin (f B)) / rnd (Fin (f cMax) - Fin (f cMin)))
            else if f cMax = f G
              then rnd (Fin 2 + rnd (rnd (Fin (f B) - Fin (f R)) / rnd (Fin (f cMax) - Fin (f cMin))))
            else if f cMax = f B
              then rnd (Fin 4 + rnd (rnd (Fin (f R) - Fin (f G)) / rnd (Fin (f cMax) - Fin (f cMin))))
            else NaN) * Fin 60)),
        hsl_s = Math_round (rnd ((if f cMax = f cMin then Fin 0
            else if Fin Lh < Fin (1 / 2) then rnd (rnd (Fin (f cMax) - Fin (f cMin)) / Fin sh)
            else rnd (rnd (Fin (f cMax) - Fin (f cMin)) / rnd (rnd (Fin 2 - Fin (f cMax)) - Fin (f cMin)))) * Fin 100)),
        hsl_l = Fin (of_int l1)\<rparr>"
    unfolding RGBtoHSL_binary64_def Let_def f [OF rng(1,2)] f [OF rng(3,4)] f [OF rng(5,6)]
      Math_max_Fin Math_min_Fin mx mn js_eq_Fin sh Lh l1(1)
    by (rule refl)
  show ?thesis
  proof (cases "cMax = cMin")
    case True
    have "RGBtoHSL_binary64 (Fin (of_int R)) (Fin (of_int G)) (Fin (of_int B))
        = \<lparr>hsl_h = Fin (of_int 0), hsl_s = Fin (of_int 0), hsl_l = Fin (of_int l1)\<rparr>"
      unfolding E0 using True by simp
    moreover have "0 \<in> set (s1_cand (cMax + cMin) dl)" using True by (simp add: s1_cand_def dl)
    ultimately show ?thesis using l1(2) True by blast
  next
    case False
    then have ne: "f cMax \<noteq> f cMin" using eq_iff [OF M m] by simp
    have d1: "1 \<le> dl" "dl \<le> 255" using False mM M m by (simp_all add: dl)
    define dx where "dx = real_of_int dl / 255"
    have dx: "1 / 255 \<le> dx" "dx \<le> 1" using d1 by (simp_all add: dx_def)
    have dM: "dx = Mx - mx'" by (simp add: dx_def dl Mx_def mx'_def diff_divide_distrib)
    have "approx ((2 + 2) * eps) (Fin (f cMax) - Fin (f cMin)) (Mx - mx')"
      by (rule approx_diffK [OF aM am])
    then have "approx ((2 + 2 + 1 + 1) * eps) (rnd (Fin (f cMax) - Fin (f cMin))) dx"
      unfolding dM [symmetric] by (rule approx_rndK) (use dx in simp_all)
    then obtain dh where dh: "rnd (Fin (f cMax) - Fin (f cMin)) = Fin dh"
      and ad: "approx (6 * eps) (Fin dh) dx"
      by (auto simp add: approx_def)
    txt \<open>the saturation\<close>
    have "\<exists>s1. Math_round (rnd ((if Fin Lh < Fin (1 / 2) then rnd (Fin dh / Fin sh)
            else rnd (Fin dh / rnd (rnd (Fin 2 - Fin (f cMax)) - Fin (f cMin)))) * Fin 100))
          = Fin (of_int s1) \<and> s1 \<in> set (s1_cand (cMax + cMin) dl)"
    proof (cases "Lh < 1 / 2")
      case True
      have sg: "cMax + cMin \<le> 255"
      proof (rule ccontr)
        assume "\<not> cMax + cMin \<le> 255"
        then have "256 \<le> cMax + cMin" by simp
        then have "256 \<le> real_of_int (cMax + cMin)" by linarith
        then have "256 / 510 \<le> Lx" by (simp add: Lx_def Mx_def mx'_def)
        moreover have "\<bar>Lh - Lx\<bar> \<le> 9 * eps" using aL by (simp add: approx_def)
        moreover have "9 * eps < 1 / 510" using eps_small by simp
        ultimately show False using True by linarith
      qed
      define sx where "sx = Mx + mx'"
      have sd: "dx \<le> sx" using mx' by (simp add: sx_def dM)
      have sx: "1 / 255 \<le> sx" using sd dx by linarith
      have "approx ((2 * (6 + 1 * 7) / (1 / 255)) * eps) (Fin dh / Fin sh) (dx / sx)"
        by (rule approx_divK [OF ad asum [folded sx_def] _ sx]) (use sd dx in simp_all)
      then have a: "approx (6630 * eps) (Fin dh / Fin sh) (dx / sx)" by simp
      define S where "S = dx / sx"
      have S: "0 \<le> S" "S \<le> 1" using sd dx sx by (simp_all add: S_def)
      have "approx ((6630 + 1 + 1) * eps) (rnd (Fin dh / Fin sh)) S"
        by (rule approx_rndK [OF a [folded S_def]]) (use S in simp_all)
      then obtain Sh where Sh: "rnd (Fin dh / Fin sh) = Fin Sh" and aS: "approx (6632 * eps) (Fin Sh) S"
        by (auto simp add: approx_def)
      have "approx ((6632 * (100 + 1) + 1 * 0) * eps) (Fin Sh * Fin 100) (S * 100)"
        by (rule approx_multK [OF aS approx_exactK]) (use S in simp_all)
      then have "approx ((6632 * (100 + 1) + 1 * 0 + 100 + 1) * eps) (rnd (Fin Sh * Fin 100)) (S * 100)"
        by (rule approx_rndK) (use S in simp_all)
      moreover have "S * 100 = real_of_int (100 * dl) / real_of_int (cMax + cMin)"
        using sx by (simp add: S_def dx_def sx_def Mx_def mx'_def field_simps)
      ultimately have b: "approx (669933 * eps) (rnd (Fin Sh * Fin 100))
          (real_of_int (100 * dl) / real_of_int (cMax + cMin))"
        by simp
      have q: "0 < cMax + cMin" "2 * 669933 * real_of_int (cMax + cMin) \<le> 10 ^ 14"
        using d1 m sg by (simp_all add: dl)
      from round_cand [OF b q] obtain s1 where s1: "Math_round (rnd (Fin Sh * Fin 100)) = Fin (of_int s1)"
        "s1 \<in> set (cand (100 * dl) (cMax + cMin))" by auto
      have "s1 \<in> set (s1_cand (cMax + cMin) dl)"
      proof (cases "cMax + cMin < 255")
        case True
        then show ?thesis using s1(2) d1 by (simp add: s1_cand_def)
      next
        case False
        then have "cMax + cMin = 255" using sg by simp
        then show ?thesis using s1(2) d1 by (simp add: s1_cand_def)
      qed
      then show ?thesis using True by (simp only: less_jsnum.simps if_True Sh s1(1)) blast
    next
      case nl: False
      have sg: "255 \<le> cMax + cMin"
      proof (rule ccontr)
        assume "\<not> 255 \<le> cMax + cMin"
        then have "cMax + cMin \<le> 254" by simp
        then have "real_of_int (cMax + cMin) \<le> 254" by linarith
        then have "Lx \<le> 254 / 510" by (simp add: Lx_def Mx_def mx'_def)
        moreover have "\<bar>Lh - Lx\<bar> \<le> 9 * eps" using aL by (simp add: approx_def)
        moreover have "9 * eps < 1 / 510" using eps_small by simp
        ultimately show False using nl by linarith
      qed
      have "approx ((0 + 2) * eps) (Fin 2 - Fin (f cMax)) (2 - Mx)"
        by (rule approx_diffK [OF approx_exactK aM])
      then have "approx ((0 + 2 + 2 + 1) * eps) (rnd (Fin 2 - Fin (f cMax))) (2 - Mx)"
        by (rule approx_rndK) (use Mx in simp_all)
      then have "approx ((0 + 2 + 2 + 1 + 2) * eps) (rnd (Fin 2 - Fin (f cMax)) - Fin (f cMin)) (2 - Mx - mx')"
        by (rule approx_diffK [OF _ am])
      then have "approx ((0 + 2 + 2 + 1 + 2 + 2 + 1) * eps)
          (rnd (rnd (Fin 2 - Fin (f cMax)) - Fin (f cMin))) (2 - Mx - mx')"
        by (rule approx_rndK) (use Mx mx' in simp_all)
      then have "approx (10 * eps) (rnd (rnd (Fin 2 - Fin (f cMax)) - Fin (f cMin))) (2 - Mx - mx')"
        by simp
      define tx where "tx = 2 - Mx - mx'"
      note at = \<open>approx (10 * eps) (rnd (rnd (Fin 2 - Fin (f cMax)) - Fin (f cMin))) (2 - Mx - mx')\<close>
        [folded tx_def]
      have td: "dx \<le> tx" using Mx by (simp add: tx_def dM)
      have tx: "1 / 255 \<le> tx" using td dx by linarith
      have "approx ((2 * (6 + 1 * 10) / (1 / 255)) * eps)
          (Fin dh / rnd (rnd (Fin 2 - Fin (f cMax)) - Fin (f cMin))) (dx / tx)"
        by (rule approx_divK [OF ad at _ tx]) (use td dx in simp_all)
      then have a: "approx (8160 * eps) (Fin dh / rnd (rnd (Fin 2 - Fin (f cMax)) - Fin (f cMin))) (dx / tx)"
        by simp
      define S where "S = dx / tx"
      have S: "0 \<le> S" "S \<le> 1" using td dx tx by (simp_all add: S_def)
      have "approx ((8160 + 1 + 1) * eps) (rnd (Fin dh / rnd (rnd (Fin 2 - Fin (f cMax)) - Fin (f cMin)))) S"
        by (rule approx_rndK [OF a [folded S_def]]) (use S in simp_all)
      then obtain Sh where Sh: "rnd (Fin dh / rnd (rnd (Fin 2 - Fin (f cMax)) - Fin (f cMin))) = Fin Sh"
        and aS: "approx (8162 * eps) (Fin Sh) S"
        by (auto simp add: approx_def)
      have "approx ((8162 * (100 + 1) + 1 * 0) * eps) (Fin Sh * Fin 100) (S * 100)"
        by (rule approx_multK [OF aS approx_exactK]) (use S in simp_all)
      then have "approx ((8162 * (100 + 1) + 1 * 0 + 100 + 1) * eps) (rnd (Fin Sh * Fin 100)) (S * 100)"
        by (rule approx_rndK) (use S in simp_all)
      moreover have "S * 100 = real_of_int (100 * dl) / real_of_int (510 - (cMax + cMin))"
        using tx by (simp add: S_def dx_def tx_def Mx_def mx'_def field_simps)
      ultimately have b: "approx (824463 * eps) (rnd (Fin Sh * Fin 100))
          (real_of_int (100 * dl) / real_of_int (510 - (cMax + cMin)))"
        by simp
      have "dl \<le> 510 - (cMax + cMin)" using M by (simp add: dl)
      then have q: "0 < 510 - (cMax + cMin)" "2 * 824463 * real_of_int (510 - (cMax + cMin)) \<le> 10 ^ 14"
        using d1 m M by simp_all
      from round_cand [OF b q] obtain s1 where s1: "Math_round (rnd (Fin Sh * Fin 100)) = Fin (of_int s1)"
        "s1 \<in> set (cand (100 * dl) (510 - (cMax + cMin)))" by auto
      have "s1 \<in> set (s1_cand (cMax + cMin) dl)" using s1(2) d1 sg by (simp add: s1_cand_def)
      then show ?thesis using nl by (simp only: less_jsnum.simps if_False Sh s1(1)) blast
    qed
    then obtain s1 where s1: "Math_round (rnd ((if Fin Lh < Fin (1 / 2) then rnd (Fin dh / Fin sh)
            else rnd (Fin dh / rnd (rnd (Fin 2 - Fin (f cMax)) - Fin (f cMin)))) * Fin 100))
          = Fin (of_int s1)" "s1 \<in> set (s1_cand (cMax + cMin) dl)" by blast
    note E1 = E0 [unfolded dh, simplified ne if_False, unfolded s1(1)]
    txt \<open>the hue\<close>
    have ch: "\<bar>X - Y\<bar> \<le> dl" if "cMin \<le> X" "X \<le> cMax" "cMin \<le> Y" "Y \<le> cMax" for X Y
      using that by (simp add: dl abs_le_iff)
    have bnd: "cMin \<le> R" "R \<le> cMax" "cMin \<le> G" "G \<le> cMax" "cMin \<le> B" "B \<le> cMax"
      by (simp_all add: cMax_def cMin_def)
    note aR = af [OF rng(1,2)] and aG = af [OF rng(3,4)] and aB = af [OF rng(5,6)]
    note ad' = ad [unfolded dx_def]
    consider (r) "cMax = R" | (g) "cMax \<noteq> R" "cMax = G" | (b) "cMax \<noteq> R" "cMax \<noteq> G" by blast
    then show ?thesis
    proof cases
      case r
      have NP: "\<bar>G - B\<bar> \<le> dl" by (rule ch [OF bnd(3,4,5,6)])
      from hue_ratio [OF aG aB ad' d1(1) NP d1(2)] obtain uh where
        uh: "rnd (rnd (Fin (f G) - Fin (f B)) / Fin dh) = Fin uh"
        and au: "approx (6122 * eps) (Fin uh) (real_of_int (G - B) / real_of_int dl)"
        by (auto simp add: approx_def)
      from hue_degrees [OF au d1 NP, of 0] obtain k where
        k: "\<bar>real_of_int k - 60 * (real_of_int (G - B) / real_of_int dl)\<bar> \<le> 1 / 2"
        "Math_round (rnd (Fin uh * Fin 60)) = Fin (of_int k)" by auto
      have "RGBtoHSL_binary64 (Fin (of_int R)) (Fin (of_int G)) (Fin (of_int B))
          = \<lparr>hsl_h = Fin (of_int k), hsl_s = Fin (of_int s1), hsl_l = Fin (of_int l1)\<rparr>"
        unfolding E1 using r by (simp only: if_True uh k(2) refl)
      then show ?thesis using False r k(1) s1(2) l1(2) by blast
    next
      case g
      then have ne2: "f cMax \<noteq> f R" using eq_iff [OF M rng(1,2)] by simp
      have NP: "\<bar>B - R\<bar> \<le> dl" by (rule ch [OF bnd(5,6,1,2)])
      from hue_ratio [OF aB aR ad' d1(1) NP d1(2)] obtain uh where
        uh: "rnd (rnd (Fin (f B) - Fin (f R)) / Fin dh) = Fin uh"
        and au: "approx (6122 * eps) (Fin uh) (real_of_int (B - R) / real_of_int dl)"
        by (auto simp add: approx_def)
      from hue_degrees [OF au d1 NP, of 2] obtain k where
        k: "\<bar>real_of_int k - 60 * (real_of_int (B - R) / real_of_int dl)\<bar> \<le> 1 / 2"
        "Math_round (rnd (rnd (Fin (of_int 2) + Fin uh) * Fin 60)) = Fin (of_int (60 * 2 + k))" by auto
      have k2: "Math_round (rnd (rnd (Fin 2 + Fin uh) * Fin 60)) = Fin (of_int (120 + k))"
        using k(2) by simp
      have "RGBtoHSL_binary64 (Fin (of_int R)) (Fin (of_int G)) (Fin (of_int B))
          = \<lparr>hsl_h = Fin (of_int (120 + k)), hsl_s = Fin (of_int s1), hsl_l = Fin (of_int l1)\<rparr>"
        unfolding E1 using g(2) ne2 by (simp only: if_True if_False uh k2 refl)
      moreover have "\<bar>real_of_int (120 + k - 120) - 60 * (real_of_int (B - R) / real_of_int dl)\<bar> \<le> 1 / 2"
        using k(1) by simp
      ultimately show ?thesis using False g s1(2) l1(2) by blast
    next
      case b
      then have mB: "cMax = B" by (auto simp add: cMax_def max_def split: if_splits)
      have ne2: "f cMax \<noteq> f R" "f cMax \<noteq> f G"
        using b eq_iff [OF M rng(1,2)] eq_iff [OF M rng(3,4)] by simp_all
      have NP: "\<bar>R - G\<bar> \<le> dl" by (rule ch [OF bnd(1,2,3,4)])
      from hue_ratio [OF aR aG ad' d1(1) NP d1(2)] obtain uh where
        uh: "rnd (rnd (Fin (f R) - Fin (f G)) / Fin dh) = Fin uh"
        and au: "approx (6122 * eps) (Fin uh) (real_of_int (R - G) / real_of_int dl)"
        by (auto simp add: approx_def)
      from hue_degrees [OF au d1 NP, of 4] obtain k where
        k: "\<bar>real_of_int k - 60 * (real_of_int (R - G) / real_of_int dl)\<bar> \<le> 1 / 2"
        "Math_round (rnd (rnd (Fin (of_int 4) + Fin uh) * Fin 60)) = Fin (of_int (60 * 4 + k))" by auto
      have k2: "Math_round (rnd (rnd (Fin 4 + Fin uh) * Fin 60)) = Fin (of_int (240 + k))"
        using k(2) by simp
      have "RGBtoHSL_binary64 (Fin (of_int R)) (Fin (of_int G)) (Fin (of_int B))
          = \<lparr>hsl_h = Fin (of_int (240 + k)), hsl_s = Fin (of_int s1), hsl_l = Fin (of_int l1)\<rparr>"
        unfolding E1 using mB ne2 by (simp only: if_True if_False uh k2 refl)
      moreover have "\<bar>real_of_int (240 + k - 240) - 60 * (real_of_int (R - G) / real_of_int dl)\<bar> \<le> 1 / 2"
        using k(1) by simp
      ultimately show ?thesis using False b s1(2) l1(2) by blast
    qed
  qed
qed

text \<open>
  The composition: its saturation and its lightness are candidates of the three
  conversions in sequence, and its hue is the hue of \<open>RGBtoHSL\<close> unless the
  saturation is zero.
\<close>

lemma pair_checkD:
  assumes "pair_check cMax cMin"
    and "l1 \<in> set (cand (100 * (cMax + cMin)) 510)"
    and "s1 \<in> set (s1_cand (cMax + cMin) (cMax - cMin))"
  shows "0 \<le> l1" "l1 \<le> 100" "0 \<le> s1" "s1 \<le> 100"
    and "(s2, b2) \<in> set (hop1_cand s1 l1) \<Longrightarrow> 0 \<le> s2 \<and> s2 \<le> 100 \<and> 0 \<le> b2 \<and> b2 \<le> 100"
    and "(s2, b2) \<in> set (hop1_cand s1 l1) \<Longrightarrow> (s3, l3) \<in> set (hop2_cand s2 b2) \<Longrightarrow>
      0 \<le> s3 \<and> 0 \<le> l3 \<and> l3 \<le> 100 \<and> channel_check cMin (cMax - cMin) s3 l3"
  using assms unfolding pair_check_def list_all_iff in_percent_def by fastforce+

lemma hue_k_range:
  fixes k n d :: int
  assumes "\<bar>real_of_int k - 60 * (real_of_int n / real_of_int d)\<bar> \<le> 1 / 2" "\<bar>n\<bar> \<le> d" "0 < d"
  shows "- 60 \<le> k" "k \<le> 60"
proof -
  define u where "u = real_of_int n / real_of_int d"
  have "\<bar>real_of_int n\<bar> \<le> real_of_int d" using assms(2) by linarith
  then have u: "\<bar>u\<bar> \<le> 1" using assms(3) by (simp add: u_def field_simps)
  have "\<bar>real_of_int k - 60 * u\<bar> \<le> 1 / 2" using assms(1) by (simp only: u_def)
  then have "- 61 < real_of_int k" "real_of_int k < 61" using u unfolding abs_le_iff by linarith+
  then show "- 60 \<le> k" "k \<le> 60" by linarith+
qed

lemma via_HSB_binary64_int:
  fixes R G B :: int
  assumes rng: "0 \<le> R" "R \<le> 255" "0 \<le> G" "G \<le> 255" "0 \<le> B" "B \<le> 255"
  defines "cMax \<equiv> max R (max G B)" and "cMin \<equiv> min R (min G B)"
  assumes pc: "pair_check cMax cMin"
  shows "\<exists>hh h1 s1 l1 s2 b2 s3 l3.
      via_HSB_binary64 (Fin (of_int R)) (Fin (of_int G)) (Fin (of_int B))
        = \<lparr>hsl_h = Fin hh, hsl_s = Fin (of_int s3), hsl_l = Fin (of_int l3)\<rparr>
      \<and> l1 \<in> set (cand (100 * (cMax + cMin)) 510)
      \<and> s1 \<in> set (s1_cand (cMax + cMin) (cMax - cMin))
      \<and> (s2, b2) \<in> set (hop1_cand s1 l1)
      \<and> (s3, l3) \<in> set (hop2_cand s2 b2)
      \<and> (hh = of_int h1 \<or> s3 = 0)
      \<and> (cMax = cMin \<and> h1 = 0
         \<or> cMax \<noteq> cMin \<and> cMax = R
            \<and> \<bar>real_of_int h1 - 60 * (real_of_int (G - B) / real_of_int (cMax - cMin))\<bar> \<le> 1 / 2
         \<or> cMax \<noteq> cMin \<and> cMax \<noteq> R \<and> cMax = G
            \<and> \<bar>real_of_int (h1 - 120) - 60 * (real_of_int (B - R) / real_of_int (cMax - cMin))\<bar> \<le> 1 / 2
         \<or> cMax \<noteq> cMin \<and> cMax \<noteq> R \<and> cMax \<noteq> G
            \<and> \<bar>real_of_int (h1 - 240) - 60 * (real_of_int (R - G) / real_of_int (cMax - cMin))\<bar> \<le> 1 / 2)"
proof -
  define dl where "dl = cMax - cMin"
  from RGBtoHSL_binary64_int [OF rng, folded cMax_def cMin_def, folded dl_def]
  obtain h1 s1 l1 where
    c: "RGBtoHSL_binary64 (Fin (of_int R)) (Fin (of_int G)) (Fin (of_int B))
        = \<lparr>hsl_h = Fin (of_int h1), hsl_s = Fin (of_int s1), hsl_l = Fin (of_int l1)\<rparr>"
    and l1: "l1 \<in> set (cand (100 * (cMax + cMin)) 510)"
    and s1: "s1 \<in> set (s1_cand (cMax + cMin) dl)"
    and hue: "cMax = cMin \<and> h1 = 0
         \<or> cMax \<noteq> cMin \<and> cMax = R
            \<and> \<bar>real_of_int h1 - 60 * (real_of_int (G - B) / real_of_int dl)\<bar> \<le> 1 / 2
         \<or> cMax \<noteq> cMin \<and> cMax \<noteq> R \<and> cMax = G
            \<and> \<bar>real_of_int (h1 - 120) - 60 * (real_of_int (B - R) / real_of_int dl)\<bar> \<le> 1 / 2
         \<or> cMax \<noteq> cMin \<and> cMax \<noteq> R \<and> cMax \<noteq> G
            \<and> \<bar>real_of_int (h1 - 240) - 60 * (real_of_int (R - G) / real_of_int dl)\<bar> \<le> 1 / 2"
    by blast
  note r1 = pair_checkD(1-4) [OF pc l1 s1 [unfolded dl_def]]
  have bnd: "cMin \<le> R" "R \<le> cMax" "cMin \<le> G" "G \<le> cMax" "cMin \<le> B" "B \<le> cMax"
    by (simp_all add: cMax_def cMin_def)
  have ch: "\<bar>X - Y\<bar> \<le> dl" if "cMin \<le> X" "X \<le> cMax" "cMin \<le> Y" "Y \<le> cMax" for X Y
    using that by (simp add: dl_def abs_le_iff)
  have d0: "0 < dl" if "cMax \<noteq> cMin" using that bnd by (simp add: dl_def)
  have h1: "- 60 \<le> h1 \<and> h1 \<le> 300"
    using hue hue_k_range [OF _ ch [OF bnd(3,4,5,6)] d0, of h1]
      hue_k_range [OF _ ch [OF bnd(5,6,1,2)] d0, of "h1 - 120"]
      hue_k_range [OF _ ch [OF bnd(1,2,3,4)] d0, of "h1 - 240"]
    by auto
  define h2 where "h2 = (if l1 = 0 then 0 else h1)"
  have h2: "- 60 \<le> h2" "h2 \<le> 300" using h1 by (simp_all add: h2_def)
  from HSLToHSB_binary64_int [OF conjunct1 [OF h1] conjunct2 [OF h1] r1(3,4,1,2), folded h2_def]
  obtain s2 b2 where
    v: "HSLToHSB_binary64 (rnd (Fin (of_int h1) / Fin 60)) (rnd (Fin (of_int s1) / Fin 100))
        (rnd (Fin (of_int l1) / Fin 100))
      = \<lparr>hsb_h = Fin (of_int h2), hsb_s = Fin (of_int s2), hsb_b = Fin (of_int b2)\<rparr>"
    and sb: "(s2, b2) \<in> set (hop1_cand s1 l1)"
    by blast
  from pair_checkD(5) [OF pc l1 s1 [unfolded dl_def] sb]
  have r2: "0 \<le> s2" "s2 \<le> 100" "0 \<le> b2" "b2 \<le> 100" by simp_all
  from HSBToHSL_binary64_int [OF h2 r2]
  obtain hh s3 l3 where
    w: "HSBToHSL_binary64 (rnd (Fin (of_int h2) / Fin 60)) (rnd (Fin (of_int s2) / Fin 100))
        (rnd (Fin (of_int b2) / Fin 100))
      = \<lparr>hsl_h = Fin hh, hsl_s = Fin (of_int s3), hsl_l = Fin (of_int l3)\<rparr>"
    and sl: "(s3, l3) \<in> set (hop2_cand s2 b2)"
    and hh: "hh = of_int h2 \<or> s3 = 0"
    by blast
  have e: "via_HSB_binary64 (Fin (of_int R)) (Fin (of_int G)) (Fin (of_int B))
        = \<lparr>hsl_h = Fin hh, hsl_s = Fin (of_int s3), hsl_l = Fin (of_int l3)\<rparr>"
    by (simp only: via_HSB_binary64_def Let_def c hsl.simps v hsb.simps w)
  have "hh = of_int h1 \<or> s3 = 0"
  proof (cases "l1 = 0")
    case True
    then have "(s2, b2) = (0, 0)" using sb by (simp add: hop1_cand_def)
    then have "(s3, l3) = (0, 0)" using sl by (simp add: hop2_cand_def)
    then show ?thesis by simp
  next
    case False
    then show ?thesis using hh by (simp add: h2_def)
  qed
  then show ?thesis using e l1 s1 sb sl hue unfolding dl_def by blast
qed

subsection \<open>The error of a channel\<close>

text \<open>
  A channel \<open>mn + dl * \<tau>\<close> of the input comes back as the rounding of
  \<open>255 * (m + C * t)\<close>, where \<open>t\<close> is the position of the channel that the
  rounded hue gives; \<open>t\<close> and \<open>\<tau>\<close> differ by at most \<open>1 / 120\<close>.
\<close>

lemma abs_scaled:
  fixes k :: int
  shows "\<bar>2 * (real_of_int k / 100) - 1\<bar> = real_of_int \<bar>2 * k - 100\<bar> / 100"
  by (simp add: abs_if field_simps)

lemma channel_close:
  fixes x mn dl s3 l3 :: int and \<tau> t :: real
  assumes s3: "0 \<le> s3" and l3: "0 \<le> l3" "l3 \<le> 100"
    and chk: "channel_check mn dl s3 l3"
    and x: "real_of_int x = real_of_int mn + real_of_int dl * \<tau>"
    and \<tau>: "0 \<le> \<tau>" "\<tau> \<le> 1" and t: "\<bar>t - \<tau>\<bar> \<le> 1 / 120"
  defines "C \<equiv> (1 - \<bar>2 * (real_of_int l3 / 100) - 1\<bar>) * (real_of_int s3 / 100)"
  defines "m \<equiv> real_of_int l3 / 100 - C / 2"
  shows "x - 8 \<le> \<lfloor>(C * t + m) * 255 + 1 / 2\<rfloor> \<and> \<lfloor>(C * t + m) * 255 + 1 / 2\<rfloor> \<le> x + 8"
proof -
  define w3 where "w3 = 100 - \<bar>2 * l3 - 100\<bar>"
  define a where "a = 612000 * l3 - 3060 * w3 * s3 - 240000 * mn"
  define b where "b = 6120 * w3 * s3 - 240000 * dl"
  define c where "c = 51 * w3 * s3"
  have lo: "- 2040000 \<le> a + min 0 b - c" and hi: "a + max 0 b + c < 2040000"
    using chk unfolding channel_check_def Let_def a_def b_def c_def w3_def by simp_all
  define q where "q = real_of_int (w3 * s3)"
  have w3: "0 \<le> w3" using l3 by (simp add: w3_def abs_if)
  have q0: "0 \<le> q" using w3 s3 by (simp add: q_def)
  have C: "C = q / 10000"
    unfolding C_def abs_scaled by (simp add: q_def w3_def field_simps)
  have m: "m = real_of_int l3 / 100 - q / 20000" by (simp add: m_def C)
  define A where "A = 255 * m - real_of_int mn"
  define B where "B = 255 * C - real_of_int dl"
  define E where "E = 255 * C * (t - \<tau>)"
  have a: "real_of_int a = 240000 * A"
    by (simp add: a_def A_def m q_def mult.assoc)
  have b: "real_of_int b = 240000 * B"
    by (simp add: b_def B_def C q_def mult.assoc)
  have c: "real_of_int c = 240000 * (255 * C / 120)"
    by (simp add: c_def C q_def mult.assoc)
  have Y: "(C * t + m) * 255 - real_of_int x = A + B * \<tau> + E"
    by (simp add: x A_def B_def E_def algebra_simps)
  have B1: "min 0 B \<le> B * \<tau>"
  proof (cases "0 \<le> B")
    case True then show ?thesis using \<tau>(1) by simp
  next
    case False
    then have "B * 1 \<le> B * \<tau>" using \<tau>(2) by (intro mult_left_mono_neg) simp_all
    then show ?thesis using False by simp
  qed
  have B2: "B * \<tau> \<le> max 0 B"
  proof (cases "0 \<le> B")
    case True
    then have "B * \<tau> \<le> B * 1" using \<tau>(2) by (intro mult_left_mono) simp_all
    then show ?thesis using True by simp
  next
    case False
    then have "B * \<tau> \<le> 0" using \<tau>(1) by (simp add: mult_nonpos_nonneg)
    then show ?thesis by simp
  qed
  have C0: "0 \<le> 255 * C" using q0 by (simp add: C)
  have "\<bar>E\<bar> = 255 * C * \<bar>t - \<tau>\<bar>" using C0 by (simp add: E_def abs_mult)
  also have "\<dots> \<le> 255 * C * (1 / 120)" using t C0 by (intro mult_left_mono) simp_all
  finally have E: "\<bar>E\<bar> \<le> 255 * C / 120" by simp
  have mn: "real_of_int (min 0 b) = 240000 * min 0 B" "real_of_int (max 0 b) = 240000 * max 0 B"
    using b by (simp_all add: min_def max_def)
  have "real_of_int (- 2040000) \<le> real_of_int (a + min 0 b - c)"
    using lo by (simp only: of_int_le_iff)
  then have L: "- 2040000 \<le> 240000 * A + 240000 * min 0 B - 240000 * (255 * C / 120)"
    by (simp add: a mn c)
  have "real_of_int (a + max 0 b + c) < real_of_int 2040000"
    using hi by (simp only: of_int_less_iff)
  then have H: "240000 * A + 240000 * max 0 B + 240000 * (255 * C / 120) < 2040000"
    by (simp add: a mn c)
  have lo': "real_of_int x - 17 / 2 \<le> (C * t + m) * 255"
    using L B1 E Y by (simp only: abs_le_iff) linarith
  have hi': "(C * t + m) * 255 < real_of_int x + 17 / 2"
    using H B2 E Y by (simp only: abs_le_iff) linarith
  have "real_of_int (x - 8) \<le> (C * t + m) * 255 + 1 / 2" using lo' by simp
  then have 1: "x - 8 \<le> \<lfloor>(C * t + m) * 255 + 1 / 2\<rfloor>" by (simp only: le_floor_iff)
  have "(C * t + m) * 255 + 1 / 2 < real_of_int (x + 9)" using hi' by simp
  then have "\<lfloor>(C * t + m) * 255 + 1 / 2\<rfloor> < x + 9" by (simp only: floor_less_iff)
  then show ?thesis using 1 by simp
qed

lemma hue_offset:
  fixes u :: real and k :: int
  assumes "- 1 \<le> u" "u \<le> 1" and k: "\<bar>real_of_int k - 60 * u\<bar> \<le> 1 / 2"
  shows "\<bar>real_of_int (max k 0) / 60 - max u 0\<bar> \<le> 1 / 120"
    "\<bar>real_of_int (max (- k) 0) / 60 - max (- u) 0\<bar> \<le> 1 / 120"
proof -
  define kr where "kr = real_of_int k"
  have kk: "real_of_int (max k 0) = max kr 0" "real_of_int (max (- k) 0) = max (- kr) 0"
    by (simp_all add: kr_def max_def)
  have "k \<le> - 1 \<or> 0 \<le> k" by linarith
  then have "real_of_int k \<le> real_of_int (- 1) \<or> real_of_int 0 \<le> real_of_int k"
    by (simp only: of_int_le_iff)
  then have k3: "kr \<le> 60 * u + 1 / 2" "60 * u \<le> kr + 1 / 2" "kr \<le> - 1 \<or> 0 \<le> kr"
    using k unfolding kr_def abs_le_iff by simp_all
  have m1: "max kr 0 = (if 0 \<le> kr then kr else 0)" "max u 0 = (if 0 \<le> u then u else 0)"
    "max (- kr) 0 = (if 0 \<le> kr then (if kr = 0 then 0 else 0) else - kr)"
    "max (- u) 0 = (if 0 \<le> u then (if u = 0 then 0 else 0) else - u)"
    by (simp_all add: max_def)
  show "\<bar>real_of_int (max k 0) / 60 - max u 0\<bar> \<le> 1 / 120"
    unfolding kk m1(1,2) abs_le_iff using k3 by (auto split: if_splits)
  show "\<bar>real_of_int (max (- k) 0) / 60 - max (- u) 0\<bar> \<le> 1 / 120"
    unfolding kk m1(3,4) abs_le_iff using k3 by (auto split: if_splits)
qed

lemma HSLtoRGB_cases:
  fixes h s l h' f :: real and n j :: int
  assumes "\<lfloor>h / 360\<rfloor> = n" "(h - 360 * of_int n) / 60 = h'" "\<lfloor>h' / 2\<rfloor> = j"
    "1 - \<bar>h' - 2 * of_int j - 1\<bar> = f"
  defines "C \<equiv> (1 - \<bar>2 * (l / 100) - 1\<bar>) * (s / 100)"
  defines "m \<equiv> l / 100 - C / 2"
  shows "HSLtoRGB \<lparr>hsl_h = Fin h, hsl_s = Fin s, hsl_l = Fin l\<rparr> =
    (case (if h' < 1 then (C, C * f, 0)
           else if h' < 2 then (C * f, C, 0)
           else if h' < 3 then (0, C, C * f)
           else if h' < 4 then (0, C * f, C)
           else if h' < 5 then (C * f, 0, C)
           else (C, 0, C * f)) of
       (r1, g1, b1) \<Rightarrow>
         \<lparr>rgb_r = Math_round (Fin ((r1 + m) * 255)),
          rgb_g = Math_round (Fin ((g1 + m) * 255)),
          rgb_b = Math_round (Fin ((b1 + m) * 255))\<rparr>)"
  unfolding HSLtoRGB_def Let_def C_def m_def
  by (simp only: assms(1-4) hsl.simps prod.case jsnum.case)

lemma HSLtoRGB_sector:
  fixes k s l :: int
  assumes k: "- 60 \<le> k" "k \<le> 60"
  defines "C \<equiv> (1 - \<bar>2 * (real_of_int l / 100) - 1\<bar>) * (real_of_int s / 100)"
  defines "m \<equiv> real_of_int l / 100 - C / 2"
  defines "c1 \<equiv> Fin (of_int \<lfloor>(C * 1 + m) * 255 + 1 / 2\<rfloor>)"
    and "cn \<equiv> Fin (of_int \<lfloor>(C * (real_of_int (max k 0) / 60) + m) * 255 + 1 / 2\<rfloor>)"
    and "cp \<equiv> Fin (of_int \<lfloor>(C * (real_of_int (max (- k) 0) / 60) + m) * 255 + 1 / 2\<rfloor>)"
  shows "HSLtoRGB \<lparr>hsl_h = Fin (of_int k), hsl_s = Fin (of_int s), hsl_l = Fin (of_int l)\<rparr>
      = \<lparr>rgb_r = c1, rgb_g = cn, rgb_b = cp\<rparr>"
    and "HSLtoRGB \<lparr>hsl_h = Fin (of_int (120 + k)), hsl_s = Fin (of_int s), hsl_l = Fin (of_int l)\<rparr>
      = \<lparr>rgb_r = cp, rgb_g = c1, rgb_b = cn\<rparr>"
    and "HSLtoRGB \<lparr>hsl_h = Fin (of_int (240 + k)), hsl_s = Fin (of_int s), hsl_l = Fin (of_int l)\<rparr>
      = \<lparr>rgb_r = cn, rgb_g = cp, rgb_b = c1\<rparr>"
proof -
  define kr where "kr = real_of_int k"
  have kr: "- 60 \<le> kr" "kr \<le> 60" using k by (simp_all add: kr_def)
  have mx: "real_of_int (max k 0) = (if kr < 0 then 0 else kr)"
    "real_of_int (max (- k) 0) = (if kr < 0 then - kr else 0)"
    by (auto simp add: kr_def max_def)
  note defs = c1_def cn_def cp_def mx
  note gen = HSLtoRGB_cases [where s = "real_of_int s" and l = "real_of_int l",
      folded C_def, folded m_def]
  consider "kr < 0" | "0 \<le> kr" "kr < 60" | "kr = 60" using kr by linarith
  then show "HSLtoRGB \<lparr>hsl_h = Fin (of_int k), hsl_s = Fin (of_int s), hsl_l = Fin (of_int l)\<rparr>
      = \<lparr>rgb_r = c1, rgb_g = cn, rgb_b = cp\<rparr>"
  proof cases
    case 1
    have a: "\<lfloor>kr / 360\<rfloor> = - 1" using 1 kr by (simp add: floor_eq_iff)
    have b: "(kr - 360 * of_int (- 1)) / 60 = (kr + 360) / 60" by simp
    have c: "\<lfloor>(kr + 360) / 60 / 2\<rfloor> = 2" using 1 kr by (simp add: floor_eq_iff)
    have d: "1 - \<bar>(kr + 360) / 60 - 2 * of_int 2 - 1\<bar> = - kr / 60"
      using 1 kr by (simp add: abs_if field_simps)
    have e: "\<not> (kr + 360) / 60 < 5" using kr by simp
    then have e': "\<not> (kr + 360) / 60 < 1" "\<not> (kr + 360) / 60 < 2" "\<not> (kr + 360) / 60 < 3"
      "\<not> (kr + 360) / 60 < 4" by linarith+
    show ?thesis
      unfolding kr_def [symmetric] gen [OF a b c d] defs
      by (simp only: e e' if_False prod.case 1 if_True Math_round.simps) simp
  next
    case 2
    have a: "\<lfloor>kr / 360\<rfloor> = 0" using 2 by (simp add: floor_eq_iff)
    have b: "(kr - 360 * of_int 0) / 60 = kr / 60" by simp
    have c: "\<lfloor>kr / 60 / 2\<rfloor> = 0" using 2 by (simp add: floor_eq_iff)
    have d: "1 - \<bar>kr / 60 - 2 * of_int 0 - 1\<bar> = kr / 60"
      using 2 by (simp add: abs_if field_simps)
    have e: "kr / 60 < 1" "\<not> kr < 0" using 2 by simp_all
    show ?thesis
      unfolding kr_def [symmetric] gen [OF a b c d] defs
      by (simp only: e if_False prod.case if_True Math_round.simps) simp
  next
    case 3
    have a: "\<lfloor>kr / 360\<rfloor> = 0" using 3 by (simp add: floor_eq_iff)
    have b: "(kr - 360 * of_int 0) / 60 = 1" using 3 by simp
    have c: "\<lfloor>(1 :: real) / 2\<rfloor> = 0" by (simp add: floor_eq_iff)
    have d: "1 - \<bar>(1 :: real) - 2 * of_int 0 - 1\<bar> = 1" by simp
    have e: "\<not> (1 :: real) < 1" "(1 :: real) < 2" "\<not> kr < 0" using 3 by simp_all
    show ?thesis
      unfolding kr_def [symmetric] gen [OF a b c d] defs
      by (simp only: e if_False prod.case if_True Math_round.simps) (simp add: 3)
  qed
  have h2: "real_of_int (120 + k) = 120 + kr" by (simp add: kr_def)
  consider "kr < 0" | "0 \<le> kr" "kr < 60" | "kr = 60" using kr by linarith
  then show "HSLtoRGB \<lparr>hsl_h = Fin (of_int (120 + k)), hsl_s = Fin (of_int s), hsl_l = Fin (of_int l)\<rparr>
      = \<lparr>rgb_r = cp, rgb_g = c1, rgb_b = cn\<rparr>"
  proof cases
    case 1
    have a: "\<lfloor>(120 + kr) / 360\<rfloor> = 0" using 1 kr by (simp add: floor_eq_iff)
    have b: "(120 + kr - 360 * of_int 0) / 60 = (120 + kr) / 60" by simp
    have c: "\<lfloor>(120 + kr) / 60 / 2\<rfloor> = 0" using 1 kr by (simp add: floor_eq_iff)
    have d: "1 - \<bar>(120 + kr) / 60 - 2 * of_int 0 - 1\<bar> = - kr / 60"
      using 1 kr by (simp add: abs_if field_simps)
    have e: "\<not> (120 + kr) / 60 < 1" "(120 + kr) / 60 < 2" using 1 kr by simp_all
    show ?thesis
      unfolding h2 gen [OF a b c d] defs
      by (simp only: e if_False prod.case 1 if_True Math_round.simps) simp
  next
    case 2
    have a: "\<lfloor>(120 + kr) / 360\<rfloor> = 0" using 2 by (simp add: floor_eq_iff)
    have b: "(120 + kr - 360 * of_int 0) / 60 = (120 + kr) / 60" by simp
    have c: "\<lfloor>(120 + kr) / 60 / 2\<rfloor> = 1" using 2 by (simp add: floor_eq_iff)
    have d: "1 - \<bar>(120 + kr) / 60 - 2 * of_int 1 - 1\<bar> = kr / 60"
      using 2 by (simp add: abs_if field_simps)
    have e: "\<not> (120 + kr) / 60 < 1" "\<not> (120 + kr) / 60 < 2" "(120 + kr) / 60 < 3" "\<not> kr < 0"
      using 2 by simp_all
    show ?thesis
      unfolding h2 gen [OF a b c d] defs
      by (simp only: e if_False prod.case if_True Math_round.simps) simp
  next
    case 3
    have a: "\<lfloor>(120 + kr) / 360\<rfloor> = 0" using 3 by (simp add: floor_eq_iff)
    have b: "(120 + kr - 360 * of_int 0) / 60 = 3" using 3 by simp
    have c: "\<lfloor>(3 :: real) / 2\<rfloor> = 1" by (simp add: floor_eq_iff)
    have d: "1 - \<bar>(3 :: real) - 2 * of_int 1 - 1\<bar> = 1" by simp
    have e: "\<not> (3 :: real) < 1" "\<not> (3 :: real) < 2" "\<not> (3 :: real) < 3" "(3 :: real) < 4"
      "\<not> kr < 0" using 3 by simp_all
    show ?thesis
      unfolding h2 gen [OF a b c d] defs
      by (simp only: e if_False prod.case if_True Math_round.simps) (simp add: 3)
  qed
  have h3: "real_of_int (240 + k) = 240 + kr" by (simp add: kr_def)
  consider "kr < 0" | "0 \<le> kr" "kr < 60" | "kr = 60" using kr by linarith
  then show "HSLtoRGB \<lparr>hsl_h = Fin (of_int (240 + k)), hsl_s = Fin (of_int s), hsl_l = Fin (of_int l)\<rparr>
      = \<lparr>rgb_r = cn, rgb_g = cp, rgb_b = c1\<rparr>"
  proof cases
    case 1
    have a: "\<lfloor>(240 + kr) / 360\<rfloor> = 0" using 1 kr by (simp add: floor_eq_iff)
    have b: "(240 + kr - 360 * of_int 0) / 60 = (240 + kr) / 60" by simp
    have c: "\<lfloor>(240 + kr) / 60 / 2\<rfloor> = 1" using 1 kr by (simp add: floor_eq_iff)
    have d: "1 - \<bar>(240 + kr) / 60 - 2 * of_int 1 - 1\<bar> = - kr / 60"
      using 1 kr by (simp add: abs_if field_simps)
    have e: "\<not> (240 + kr) / 60 < 1" "\<not> (240 + kr) / 60 < 2" "\<not> (240 + kr) / 60 < 3"
      "(240 + kr) / 60 < 4" using 1 kr by simp_all
    show ?thesis
      unfolding h3 gen [OF a b c d] defs
      by (simp only: e if_False prod.case 1 if_True Math_round.simps) simp
  next
    case 2
    have a: "\<lfloor>(240 + kr) / 360\<rfloor> = 0" using 2 by (simp add: floor_eq_iff)
    have b: "(240 + kr - 360 * of_int 0) / 60 = (240 + kr) / 60" by simp
    have c: "\<lfloor>(240 + kr) / 60 / 2\<rfloor> = 2" using 2 by (simp add: floor_eq_iff)
    have d: "1 - \<bar>(240 + kr) / 60 - 2 * of_int 2 - 1\<bar> = kr / 60"
      using 2 by (simp add: abs_if field_simps)
    have e: "\<not> (240 + kr) / 60 < 1" "\<not> (240 + kr) / 60 < 2" "\<not> (240 + kr) / 60 < 3"
      "\<not> (240 + kr) / 60 < 4" "(240 + kr) / 60 < 5" "\<not> kr < 0"
      using 2 by simp_all
    show ?thesis
      unfolding h3 gen [OF a b c d] defs
      by (simp only: e if_False prod.case if_True Math_round.simps) simp
  next
    case 3
    have a: "\<lfloor>(240 + kr) / 360\<rfloor> = 0" using 3 by (simp add: floor_eq_iff)
    have b: "(240 + kr - 360 * of_int 0) / 60 = 5" using 3 by simp
    have c: "\<lfloor>(5 :: real) / 2\<rfloor> = 2" by (simp add: floor_eq_iff)
    have d: "1 - \<bar>(5 :: real) - 2 * of_int 2 - 1\<bar> = 1" by simp
    have e: "\<not> (5 :: real) < 1" "\<not> (5 :: real) < 2" "\<not> (5 :: real) < 3" "\<not> (5 :: real) < 4"
      "\<not> (5 :: real) < 5" "\<not> kr < 0" using 3 by simp_all
    show ?thesis
      unfolding h3 gen [OF a b c d] defs
      by (simp only: e if_False prod.case if_True Math_round.simps) (simp add: 3)
  qed
qed

lemma HSLtoRGB_grey:
  fixes l :: int
  shows "HSLtoRGB \<lparr>hsl_h = Fin hh, hsl_s = Fin (of_int 0), hsl_l = Fin (of_int l)\<rparr>
    = \<lparr>rgb_r = Fin (of_int \<lfloor>real_of_int l / 100 * 255 + 1 / 2\<rfloor>),
       rgb_g = Fin (of_int \<lfloor>real_of_int l / 100 * 255 + 1 / 2\<rfloor>),
       rgb_b = Fin (of_int \<lfloor>real_of_int l / 100 * 255 + 1 / 2\<rfloor>)\<rparr>"
  by (simp add: HSLtoRGB_def Let_def)

lemma sector_close:
  fixes Mx N Pv s3 l3 :: int
  assumes ord: "N \<le> Mx" "Pv \<le> Mx" "min N Pv < Mx"
    and s3: "0 \<le> s3" and l3: "0 \<le> l3" "l3 \<le> 100"
    and chk: "channel_check (min N Pv) (Mx - min N Pv) s3 l3"
    and k: "\<bar>real_of_int k - 60 * (real_of_int (N - Pv) / real_of_int (Mx - min N Pv))\<bar> \<le> 1 / 2"
  defines "C \<equiv> (1 - \<bar>2 * (real_of_int l3 / 100) - 1\<bar>) * (real_of_int s3 / 100)"
  defines "m \<equiv> real_of_int l3 / 100 - C / 2"
  shows "Mx - 8 \<le> \<lfloor>(C * 1 + m) * 255 + 1 / 2\<rfloor> \<and> \<lfloor>(C * 1 + m) * 255 + 1 / 2\<rfloor> \<le> Mx + 8"
    and "N - 8 \<le> \<lfloor>(C * (real_of_int (max k 0) / 60) + m) * 255 + 1 / 2\<rfloor>
      \<and> \<lfloor>(C * (real_of_int (max k 0) / 60) + m) * 255 + 1 / 2\<rfloor> \<le> N + 8"
    and "Pv - 8 \<le> \<lfloor>(C * (real_of_int (max (- k) 0) / 60) + m) * 255 + 1 / 2\<rfloor>
      \<and> \<lfloor>(C * (real_of_int (max (- k) 0) / 60) + m) * 255 + 1 / 2\<rfloor> \<le> Pv + 8"
proof -
  define mn where "mn = min N Pv"
  define dl where "dl = Mx - mn"
  define u where "u = real_of_int (N - Pv) / real_of_int dl"
  have dl: "0 < real_of_int dl" using ord(3) by (simp add: dl_def mn_def)
  have "\<bar>N - Pv\<bar> \<le> dl" using ord by (simp add: dl_def mn_def min_def abs_if)
  then have "\<bar>real_of_int (N - Pv)\<bar> \<le> real_of_int dl"
    by (metis of_int_abs of_int_le_iff)
  then have u: "- 1 \<le> u" "u \<le> 1" unfolding u_def using dl ratio_bounds by blast+
  have "\<bar>real_of_int k - 60 * u\<bar> \<le> 1 / 2" using k by (simp only: u_def dl_def mn_def)
  note ho = hue_offset [OF u this]
  note chk' = chk [folded mn_def, folded dl_def]
  have xM: "real_of_int Mx = real_of_int mn + real_of_int dl * 1" by (simp add: dl_def)
  have du: "real_of_int dl * u = real_of_int (N - Pv)" using dl by (simp add: u_def)
  have xN: "real_of_int N = real_of_int mn + real_of_int dl * max u 0"
  proof (cases "Pv \<le> N")
    case True
    then have "0 \<le> u" using dl by (simp add: u_def)
    then have "real_of_int dl * max u 0 = real_of_int (N - Pv)" using du by (simp add: max_def)
    then show ?thesis using True by (simp add: mn_def min_def)
  next
    case False
    then have "real_of_int (N - Pv) < 0" by simp
    then have "u < 0" unfolding u_def using dl by (simp add: divide_neg_pos)
    then have "max u 0 = 0" by simp
    then show ?thesis using False by (simp add: mn_def min_def)
  qed
  have xP: "real_of_int Pv = real_of_int mn + real_of_int dl * max (- u) 0"
  proof (cases "Pv \<le> N")
    case True
    then have "0 \<le> u" using dl by (simp add: u_def)
    then have "max (- u) 0 = 0" by simp
    then show ?thesis using True by (simp add: mn_def min_def)
  next
    case False
    then have "real_of_int (N - Pv) < 0" by simp
    then have "u < 0" unfolding u_def using dl by (simp add: divide_neg_pos)
    then have "real_of_int dl * max (- u) 0 = - real_of_int (N - Pv)" using du by (simp add: max_def)
    then show ?thesis using False by (simp add: mn_def min_def)
  qed
  have r: "0 \<le> max u 0" "max u 0 \<le> 1" "0 \<le> max (- u) 0" "max (- u) 0 \<le> 1"
    using u by simp_all
  show "Mx - 8 \<le> \<lfloor>(C * 1 + m) * 255 + 1 / 2\<rfloor> \<and> \<lfloor>(C * 1 + m) * 255 + 1 / 2\<rfloor> \<le> Mx + 8"
    unfolding C_def m_def
    by (rule channel_close [OF s3 l3 chk' xM]) simp_all
  show "N - 8 \<le> \<lfloor>(C * (real_of_int (max k 0) / 60) + m) * 255 + 1 / 2\<rfloor>
      \<and> \<lfloor>(C * (real_of_int (max k 0) / 60) + m) * 255 + 1 / 2\<rfloor> \<le> N + 8"
    unfolding C_def m_def
    by (rule channel_close [OF s3 l3 chk' xN r(1,2) ho(1)])
  show "Pv - 8 \<le> \<lfloor>(C * (real_of_int (max (- k) 0) / 60) + m) * 255 + 1 / 2\<rfloor>
      \<and> \<lfloor>(C * (real_of_int (max (- k) 0) / 60) + m) * 255 + 1 / 2\<rfloor> \<le> Pv + 8"
    unfolding C_def m_def
    by (rule channel_close [OF s3 l3 chk' xP r(3,4) ho(2)])
qed

subsection \<open>The round trip of one pair\<close>

lemma round_trip_binary64_close_aux:
  fixes R G B :: int
  assumes rng: "0 \<le> R" "R \<le> 255" "0 \<le> G" "G \<le> 255" "0 \<le> B" "B \<le> 255"
    and pc: "pair_check (max R (max G B)) (min R (min G B))"
  shows "\<exists>yr yg yb. round_trip_binary64 (Fin (of_int R)) (Fin (of_int G)) (Fin (of_int B))
        = \<lparr>rgb_r = Fin (of_int yr), rgb_g = Fin (of_int yg), rgb_b = Fin (of_int yb)\<rparr>
      \<and> (R - 8 \<le> yr \<and> yr \<le> R + 8)
      \<and> (G - 8 \<le> yg \<and> yg \<le> G + 8)
      \<and> (B - 8 \<le> yb \<and> yb \<le> B + 8)"
proof -
  define cMax where "cMax = max R (max G B)"
  define cMin where "cMin = min R (min G B)"
  note pc = pc [folded cMax_def cMin_def]
  from via_HSB_binary64_int [OF rng, folded cMax_def cMin_def, OF pc]
  obtain hh h1 s1 l1 s2 b2 s3 l3 where
    via: "via_HSB_binary64 (Fin (of_int R)) (Fin (of_int G)) (Fin (of_int B))
        = \<lparr>hsl_h = Fin hh, hsl_s = Fin (of_int s3), hsl_l = Fin (of_int l3)\<rparr>"
    and l1: "l1 \<in> set (cand (100 * (cMax + cMin)) 510)"
    and s1: "s1 \<in> set (s1_cand (cMax + cMin) (cMax - cMin))"
    and sb: "(s2, b2) \<in> set (hop1_cand s1 l1)"
    and sl: "(s3, l3) \<in> set (hop2_cand s2 b2)"
    and alt: "hh = of_int h1 \<or> s3 = 0"
    and hue: "cMax = cMin \<and> h1 = 0
         \<or> cMax \<noteq> cMin \<and> cMax = R
            \<and> \<bar>real_of_int h1 - 60 * (real_of_int (G - B) / real_of_int (cMax - cMin))\<bar> \<le> 1 / 2
         \<or> cMax \<noteq> cMin \<and> cMax \<noteq> R \<and> cMax = G
            \<and> \<bar>real_of_int (h1 - 120) - 60 * (real_of_int (B - R) / real_of_int (cMax - cMin))\<bar> \<le> 1 / 2
         \<or> cMax \<noteq> cMin \<and> cMax \<noteq> R \<and> cMax \<noteq> G
            \<and> \<bar>real_of_int (h1 - 240) - 60 * (real_of_int (R - G) / real_of_int (cMax - cMin))\<bar> \<le> 1 / 2"
    by blast
  from pair_checkD(6) [OF pc l1 s1 sb sl]
  have s3: "0 \<le> s3" and l3: "0 \<le> l3" "l3 \<le> 100"
    and chk: "channel_check cMin (cMax - cMin) s3 l3" by simp_all
  define C where "C = (1 - \<bar>2 * (real_of_int l3 / 100) - 1\<bar>) * (real_of_int s3 / 100)"
  define m where "m = real_of_int l3 / 100 - C / 2"
  define ch where "ch t = \<lfloor>(C * t + m) * 255 + 1 / 2\<rfloor>" for t :: real
  have rt: "round_trip_binary64 (Fin (of_int R)) (Fin (of_int G)) (Fin (of_int B))
      = HSLtoRGB \<lparr>hsl_h = Fin hh, hsl_s = Fin (of_int s3), hsl_l = Fin (of_int l3)\<rparr>"
    by (simp only: round_trip_binary64_def via)
  note cc = channel_close [OF s3 l3, folded C_def, folded m_def, folded ch_def]
  note sec = HSLtoRGB_sector [of _ s3 l3, folded C_def, folded m_def, folded ch_def]
  note scl = sector_close [OF _ _ _ s3 l3, folded C_def, folded m_def, folded ch_def]
  have le: "cMin \<le> cMax" "cMin \<le> R" "cMin \<le> G" "cMin \<le> B" "R \<le> cMax" "G \<le> cMax" "B \<le> cMax"
    by (simp_all add: cMax_def cMin_def)
  show ?thesis
  proof (cases "s3 = 0")
    case True
    then have C0: "C = 0" by (simp add: C_def)
    have same: "x - 8 \<le> ch 0 \<and> ch 0 \<le> x + 8" if "x = R \<or> x = G \<or> x = B" for x
    proof -
      define \<tau> where "\<tau> = (if cMax = cMin then 0
        else real_of_int (x - cMin) / real_of_int (cMax - cMin))"
      have xr: "cMin \<le> x" "x \<le> cMax" using that le by auto
      have 1: "real_of_int x = real_of_int cMin + real_of_int (cMax - cMin) * \<tau>"
      proof (cases "cMax = cMin")
        case True
        then show ?thesis using xr by (simp add: \<tau>_def)
      next
        case False
        then have "0 < real_of_int (cMax - cMin)" using le by simp
        then show ?thesis using False by (simp add: \<tau>_def)
      qed
      have 2: "0 \<le> \<tau>" "\<tau> \<le> 1"
      proof -
        have "real_of_int (x - cMin) \<le> real_of_int (cMax - cMin)" using xr by simp
        moreover have "0 \<le> real_of_int (x - cMin)" using xr by simp
        ultimately show "0 \<le> \<tau>" "\<tau> \<le> 1"
          using le by (simp_all add: \<tau>_def field_simps)
      qed
      have "x - 8 \<le> ch \<tau> \<and> ch \<tau> \<le> x + 8" by (rule cc [OF chk 1 2]) simp
      moreover have "ch \<tau> = ch 0" by (simp add: ch_def C0)
      ultimately show ?thesis by simp
    qed
    have "ch 0 = \<lfloor>real_of_int l3 / 100 * 255 + 1 / 2\<rfloor>" by (simp add: ch_def C0 m_def)
    then have "round_trip_binary64 (Fin (of_int R)) (Fin (of_int G)) (Fin (of_int B))
      = \<lparr>rgb_r = Fin (of_int (ch 0)), rgb_g = Fin (of_int (ch 0)), rgb_b = Fin (of_int (ch 0))\<rparr>"
      unfolding rt True by (simp only: HSLtoRGB_grey)
    then show ?thesis using same by blast
  next
    case False
    then have hh: "hh = of_int h1" using alt by simp
    note rt = rt [unfolded hh]
    consider (grey) "cMax = cMin" "h1 = 0"
      | (r) "cMax \<noteq> cMin" "cMax = R"
          "\<bar>real_of_int h1 - 60 * (real_of_int (G - B) / real_of_int (cMax - cMin))\<bar> \<le> 1 / 2"
      | (g) "cMax \<noteq> cMin" "cMax \<noteq> R" "cMax = G"
          "\<bar>real_of_int (h1 - 120) - 60 * (real_of_int (B - R) / real_of_int (cMax - cMin))\<bar> \<le> 1 / 2"
      | (b) "cMax \<noteq> cMin" "cMax \<noteq> R" "cMax \<noteq> G"
          "\<bar>real_of_int (h1 - 240) - 60 * (real_of_int (R - G) / real_of_int (cMax - cMin))\<bar> \<le> 1 / 2"
      using hue by blast
    then show ?thesis
    proof cases
      case grey
      have e: "R = cMin" "G = cMin" "B = cMin" using le grey(1) by simp_all
      have same: "x - 8 \<le> ch t \<and> ch t \<le> x + 8"
        if "0 \<le> t" "t \<le> 1" "x = R \<or> x = G \<or> x = B" for t x
      proof -
        have x: "x = cMin" using that(3) e by auto
        have 1: "real_of_int x = real_of_int cMin + real_of_int (cMax - cMin) * t"
          using grey(1) x by simp
        show ?thesis by (rule cc [OF chk 1 that(1,2)]) simp
      qed
      have "round_trip_binary64 (Fin (of_int R)) (Fin (of_int G)) (Fin (of_int B))
        = \<lparr>rgb_r = Fin (of_int (ch 1)), rgb_g = Fin (of_int (ch (real_of_int (max 0 0) / 60))),
           rgb_b = Fin (of_int (ch (real_of_int (max (- 0) 0) / 60)))\<rparr>"
        unfolding rt grey(2) by (rule sec(1) [of 0]) simp_all
      moreover have "R - 8 \<le> ch 1 \<and> ch 1 \<le> R + 8" by (rule same) simp_all
      moreover have "G - 8 \<le> ch (real_of_int (max 0 0) / 60) \<and> ch (real_of_int (max 0 0) / 60) \<le> G + 8"
        by (rule same) simp_all
      moreover have "B - 8 \<le> ch (real_of_int (max (- 0) 0) / 60)
          \<and> ch (real_of_int (max (- 0) 0) / 60) \<le> B + 8"
        by (rule same) simp_all
      ultimately show ?thesis by blast
    next
      case r
      define k where "k = h1"
      have lt: "cMin < cMax" using r(1) le by simp
      have mn: "cMin = min G B" using le(5-7) r(2) by (simp add: cMin_def)
      have o: "G \<le> R" "B \<le> R" "min G B < R" using le lt r(2) mn by simp_all
      have c: "channel_check (min G B) (R - min G B) s3 l3" using chk r(2) mn by simp
      have kk: "\<bar>real_of_int k - 60 * (real_of_int (G - B) / real_of_int (R - min G B))\<bar> \<le> 1 / 2"
        using r(3) r(2) mn by (simp add: k_def)
      have "\<bar>G - B\<bar> \<le> R - min G B" using o by (simp add: abs_le_iff min_def)
      then have kr: "- 60 \<le> k" "k \<le> 60" using hue_k_range [OF kk] o by simp_all
      note b = scl [OF o c kk]
      have "round_trip_binary64 (Fin (of_int R)) (Fin (of_int G)) (Fin (of_int B))
        = \<lparr>rgb_r = Fin (of_int (ch 1)), rgb_g = Fin (of_int (ch (real_of_int (max k 0) / 60))),
           rgb_b = Fin (of_int (ch (real_of_int (max (- k) 0) / 60)))\<rparr>"
        unfolding rt k_def [symmetric] by (rule sec(1) [OF kr])
      then show ?thesis using b by blast
    next
      case g
      define k where "k = h1 - 120"
      have h1: "h1 = 120 + k" by (simp add: k_def)
      have lt: "cMin < cMax" using g(1) le by simp
      have mn: "cMin = min B R" using le(5-7) g(3) by (simp add: cMin_def min_def)
      have o: "B \<le> G" "R \<le> G" "min B R < G" using le lt g(3) mn by simp_all
      have c: "channel_check (min B R) (G - min B R) s3 l3" using chk g(3) mn by simp
      have kk: "\<bar>real_of_int k - 60 * (real_of_int (B - R) / real_of_int (G - min B R))\<bar> \<le> 1 / 2"
        using g(4) g(3) mn by (simp add: k_def)
      have "\<bar>B - R\<bar> \<le> G - min B R" using o by (simp add: abs_le_iff min_def)
      then have kr: "- 60 \<le> k" "k \<le> 60" using hue_k_range [OF kk] o by simp_all
      note b = scl [OF o c kk]
      have "round_trip_binary64 (Fin (of_int R)) (Fin (of_int G)) (Fin (of_int B))
        = \<lparr>rgb_r = Fin (of_int (ch (real_of_int (max (- k) 0) / 60))), rgb_g = Fin (of_int (ch 1)),
           rgb_b = Fin (of_int (ch (real_of_int (max k 0) / 60)))\<rparr>"
        unfolding rt h1 by (rule sec(2) [OF kr])
      then show ?thesis using b by blast
    next
      case b
      then have mB: "cMax = B" by (auto simp add: cMax_def max_def split: if_splits)
      define k where "k = h1 - 240"
      have h1: "h1 = 240 + k" by (simp add: k_def)
      have lt: "cMin < cMax" using b(1) le by simp
      have mn: "cMin = min R G" using le(5-7) mB by (simp add: cMin_def min_def)
      have o: "R \<le> B" "G \<le> B" "min R G < B" using le lt mB mn by simp_all
      have c: "channel_check (min R G) (B - min R G) s3 l3" using chk mB mn by simp
      have kk: "\<bar>real_of_int k - 60 * (real_of_int (R - G) / real_of_int (B - min R G))\<bar> \<le> 1 / 2"
        using b(4) mB mn by (simp add: k_def)
      have "\<bar>R - G\<bar> \<le> B - min R G" using o by (simp add: abs_le_iff min_def)
      then have kr: "- 60 \<le> k" "k \<le> 60" using hue_k_range [OF kk] o by simp_all
      note bb = scl [OF o c kk]
      have "round_trip_binary64 (Fin (of_int R)) (Fin (of_int G)) (Fin (of_int B))
        = \<lparr>rgb_r = Fin (of_int (ch (real_of_int (max k 0) / 60))),
           rgb_g = Fin (of_int (ch (real_of_int (max (- k) 0) / 60))), rgb_b = Fin (of_int (ch 1))\<rparr>"
        unfolding rt h1 by (rule sec(3) [OF kr])
      then show ?thesis using bb by blast
    qed
  qed
qed

subsection \<open>Every pair of a largest and a smallest channel\<close>

lemma all_fromD: "all_from P n i \<Longrightarrow> i \<le> j \<Longrightarrow> j < i + int n \<Longrightarrow> P j"
proof (induction n arbitrary: i)
  case 0
  then show ?case by simp
next
  case (Suc n)
  show ?case
  proof (cases "j = i")
    case True
    then show ?thesis using Suc.prems(1) by simp
  next
    case False
    have "all_from P n (i + 1)" using Suc.prems(1) by simp
    moreover have "i + 1 \<le> j" "j < i + 1 + int n" using False Suc.prems(2,3) by simp_all
    ultimately show ?thesis by (rule Suc.IH)
  qed
qed

lemma all_from_append:
  "all_from P n i \<Longrightarrow> all_from P m k \<Longrightarrow> k = i + int n \<Longrightarrow> l = n + m \<Longrightarrow> all_from P l i"
proof (induction n arbitrary: i l)
  case 0
  then show ?case by simp
next
  case (Suc n)
  have "all_from P (n + m) (i + 1)"
    by (rule Suc.IH [OF _ Suc.prems(2)]) (use Suc.prems in simp_all)
  then show ?case using Suc.prems by simp
qed

text \<open>The rows, by evaluation.\<close>

lemma rows_248_255: "all_from row_ok 8 248"
  by code_simp

lemma rows_239_247: "all_from row_ok 9 239"
  by code_simp

lemma rows_231_238: "all_from row_ok 8 231"
  by code_simp

lemma rows_222_230: "all_from row_ok 9 222"
  by code_simp

lemma rows_212_221: "all_from row_ok 10 212"
  by code_simp

lemma rows_202_211: "all_from row_ok 10 202"
  by code_simp

lemma rows_192_201: "all_from row_ok 10 192"
  by code_simp

lemma rows_181_191: "all_from row_ok 11 181"
  by code_simp

lemma rows_169_180: "all_from row_ok 12 169"
  by code_simp

lemma rows_157_168: "all_from row_ok 12 157"
  by code_simp

lemma rows_143_156: "all_from row_ok 14 143"
  by code_simp

lemma rows_128_142: "all_from row_ok 15 128"
  by code_simp

lemma rows_111_127: "all_from row_ok 17 111"
  by code_simp

lemma rows_90_110: "all_from row_ok 21 90"
  by code_simp

lemma rows_64_89: "all_from row_ok 26 64"
  by code_simp

lemma rows_0_63: "all_from row_ok 64 0"
  by code_simp

lemma rows_all: "all_from row_ok 256 0"
proof -
  have "all_from row_ok 64 0" by (rule rows_0_63)
  then have "all_from row_ok 90 0" by (rule all_from_append [OF _ rows_64_89]) simp_all
  then have "all_from row_ok 111 0" by (rule all_from_append [OF _ rows_90_110]) simp_all
  then have "all_from row_ok 128 0" by (rule all_from_append [OF _ rows_111_127]) simp_all
  then have "all_from row_ok 143 0" by (rule all_from_append [OF _ rows_128_142]) simp_all
  then have "all_from row_ok 157 0" by (rule all_from_append [OF _ rows_143_156]) simp_all
  then have "all_from row_ok 169 0" by (rule all_from_append [OF _ rows_157_168]) simp_all
  then have "all_from row_ok 181 0" by (rule all_from_append [OF _ rows_169_180]) simp_all
  then have "all_from row_ok 192 0" by (rule all_from_append [OF _ rows_181_191]) simp_all
  then have "all_from row_ok 202 0" by (rule all_from_append [OF _ rows_192_201]) simp_all
  then have "all_from row_ok 212 0" by (rule all_from_append [OF _ rows_202_211]) simp_all
  then have "all_from row_ok 222 0" by (rule all_from_append [OF _ rows_212_221]) simp_all
  then have "all_from row_ok 231 0" by (rule all_from_append [OF _ rows_222_230]) simp_all
  then have "all_from row_ok 239 0" by (rule all_from_append [OF _ rows_231_238]) simp_all
  then have "all_from row_ok 248 0" by (rule all_from_append [OF _ rows_239_247]) simp_all
  then show ?thesis by (rule all_from_append [OF _ rows_248_255]) simp_all
qed

lemma pair_check_all:
  assumes "0 \<le> cMin" "cMin \<le> cMax" "cMax \<le> 255"
  shows "pair_check cMax cMin"
proof -
  have "row_ok cMax" by (rule all_fromD [OF rows_all]) (use assms in simp_all)
  then have "all_from (pair_check cMax) (nat (cMax + 1)) 0" by (simp only: row_ok_def)
  then show ?thesis by (rule all_fromD) (use assms in simp_all)
qed

lemma close_to_int:
  "x - 8 \<le> y \<and> y \<le> x + 8 \<Longrightarrow> close_to 8 (Fin (of_int y)) (Fin (of_int x))"
proof -
  assume "x - 8 \<le> y \<and> y \<le> x + 8"
  then have "real_of_int x - 8 \<le> real_of_int y \<and> real_of_int y \<le> real_of_int x + 8"
    by linarith
  then show ?thesis by (simp add: close_to_def)
qed

text \<open>
  The hue is rounded to whole degrees, and a degree is more than four units of a channel
  of a saturated colour: \<open>(255, 3, 0)\<close> and \<open>(255, 6, 0)\<close> leave the three
  conversions with the same triple, so that nothing recovers both within 1.
\<close>

lemma via_HSB_binary64_orange:
  "via_HSB_binary64 (Fin 255) (Fin 6) (Fin 0) = \<lparr>hsl_h = Fin 1, hsl_s = Fin 100, hsl_l = Fin 50\<rparr>"
  "via_HSB_binary64 (Fin 255) (Fin 3) (Fin 0) = \<lparr>hsl_h = Fin 1, hsl_s = Fin 100, hsl_l = Fin 50\<rparr>"
proof -
  have c: "cand 25500 510 = [50]" "s1_cand 255 255 = [100]" "hop1_cand 100 50 = [(100, 100)]"
    "hop2_cand 100 100 = [(100, 50)]"
    by (simp_all add: cand_def s1_cand_def hop1_cand_def hop2_cand_def Let_def)
  have one: "h1 = 1" if "\<bar>real_of_int h1 - 60 * (real_of_int n / 255)\<bar> \<le> 1 / 2" "n = 3 \<or> n = 6"
    for h1 n :: int
  proof -
    have "60 * (real_of_int n / 255) = 12 / 17 \<or> 60 * (real_of_int n / 255) = 24 / 17"
      using that(2) by auto
    then have "0 < real_of_int h1" "real_of_int h1 < 2"
      using that(1) unfolding abs_le_iff by linarith+
    then show ?thesis by linarith
  qed
  have pc: "pair_check (max 255 (max 6 0)) (min 255 (min 6 0))"
    "pair_check (max 255 (max 3 0)) (min 255 (min 3 0))"
    by (simp_all add: pair_check_all)
  from via_HSB_binary64_int [of 255 6 0, OF _ _ _ _ _ _ pc(1)]
  obtain hh h1 s3 l3 :: "_" where
    "via_HSB_binary64 (Fin 255) (Fin 6) (Fin 0)
        = \<lparr>hsl_h = Fin hh, hsl_s = Fin (of_int s3), hsl_l = Fin (of_int l3)\<rparr>"
    "(s3, l3) = (100, 50)" "hh = of_int h1 \<or> s3 = 0"
    "\<bar>real_of_int h1 - 60 * (real_of_int 6 / 255)\<bar> \<le> 1 / 2"
    by (auto simp add: c)
  then show "via_HSB_binary64 (Fin 255) (Fin 6) (Fin 0) = \<lparr>hsl_h = Fin 1, hsl_s = Fin 100, hsl_l = Fin 50\<rparr>"
    using one [of h1 6] by auto
  from via_HSB_binary64_int [of 255 3 0, OF _ _ _ _ _ _ pc(2)]
  obtain hh h1 s3 l3 :: "_" where
    "via_HSB_binary64 (Fin 255) (Fin 3) (Fin 0)
        = \<lparr>hsl_h = Fin hh, hsl_s = Fin (of_int s3), hsl_l = Fin (of_int l3)\<rparr>"
    "(s3, l3) = (100, 50)" "hh = of_int h1 \<or> s3 = 0"
    "\<bar>real_of_int h1 - 60 * (real_of_int 3 / 255)\<bar> \<le> 1 / 2"
    by (auto simp add: c)
  then show "via_HSB_binary64 (Fin 255) (Fin 3) (Fin 0) = \<lparr>hsl_h = Fin 1, hsl_s = Fin 100, hsl_l = Fin 50\<rparr>"
    using one [of h1 3] by auto
qed

text \<open>
  Claim C2, as stated, fails: \<open>(255, 6, 0)\<close> comes back as \<open>(255, 4, 0)\<close>.
\<close>

theorem round_trip_binary64_orange_off_by_two:
  "round_trip_binary64 (Fin 255) (Fin 6) (Fin 0) = \<lparr>rgb_r = Fin 255, rgb_g = Fin 4, rgb_b = Fin 0\<rparr>"
  by (simp add: round_trip_binary64_def via_HSB_binary64_orange HSLtoRGB_def Let_def)

text \<open>
  Claim C2, amended.  For every integer triple in \<open>[0, 255]^3\<close> the composition
  gives each channel back within 8.
\<close>

theorem round_trip_binary64_within_eight:
  fixes R G B :: int
  assumes "0 \<le> R" "R \<le> 255" "0 \<le> G" "G \<le> 255" "0 \<le> B" "B \<le> 255"
  shows "close_to 8 (rgb_r (round_trip_binary64 (Fin (of_int R)) (Fin (of_int G)) (Fin (of_int B)))) (Fin (of_int R))
    \<and> close_to 8 (rgb_g (round_trip_binary64 (Fin (of_int R)) (Fin (of_int G)) (Fin (of_int B)))) (Fin (of_int G))
    \<and> close_to 8 (rgb_b (round_trip_binary64 (Fin (of_int R)) (Fin (of_int G)) (Fin (of_int B)))) (Fin (of_int B))"
proof -
  have "pair_check (max R (max G B)) (min R (min G B))"
    by (rule pair_check_all) (use assms in simp_all)
  from round_trip_binary64_close_aux [OF assms this] obtain yr yg yb where
    rt: "round_trip_binary64 (Fin (of_int R)) (Fin (of_int G)) (Fin (of_int B))
        = \<lparr>rgb_r = Fin (of_int yr), rgb_g = Fin (of_int yg), rgb_b = Fin (of_int yb)\<rparr>"
    and b: "R - 8 \<le> yr \<and> yr \<le> R + 8" "G - 8 \<le> yg \<and> yg \<le> G + 8" "B - 8 \<le> yb \<and> yb \<le> B + 8"
    by blast
  show ?thesis unfolding rt rgb.simps using b [THEN close_to_int] by (simp only: simp_thms)
qed

theorem round_trip_binary64_within_eight_witness:
  "close_to 8 (rgb_r (round_trip_binary64 (Fin (of_int 4)) (Fin (of_int 19)) (Fin (of_int 254)))) (Fin (of_int 4))
   \<and> close_to 8 (rgb_g (round_trip_binary64 (Fin (of_int 4)) (Fin (of_int 19)) (Fin (of_int 254)))) (Fin (of_int 19))
   \<and> close_to 8 (rgb_b (round_trip_binary64 (Fin (of_int 4)) (Fin (of_int 19)) (Fin (of_int 254)))) (Fin (of_int 254))"
  using round_trip_binary64_within_eight [of 4 19 254] by simp

end
